theory Spec2Isabelle
  imports Complex_Main "HOL-Library.Word" "HOL-Library.Sublist" "HOL-Library.AList"
begin

section \<open>Values of the host language\<close>

text \<open>
  The services (\<open>geminiService.ts\<close>) and the preview component (\<open>PreviewDownload.tsx\<close>) are
  TypeScript modules. A string of the program is a sequence of UTF-16 code units; the
  literals of the source are written with \<open>ascii\<close>, the Chinese ones code unit by code unit.
\<close>

type_synonym jsstring = "16 word list"

definition ascii :: "string \<Rightarrow> jsstring" where
  "ascii s = map of_char s"

text \<open>\<open>String(n)\<close> of a natural number, as a template literal \<open>${i + 1}\<close> renders it.\<close>

function decimal :: "nat \<Rightarrow> jsstring" where
  "decimal n = (if n < 10 then [of_nat (48 + n)] else decimal (n div 10) @ [of_nat (48 + n mod 10)])"
  by pat_completeness auto
termination
  by (relation "measure id") auto

text \<open>\<open>s.includes(t)\<close>: \<open>t\<close> occurs in \<open>s\<close> as a contiguous run, letter case significant.\<close>

fun str_includes :: "jsstring \<Rightarrow> jsstring \<Rightarrow> bool" where
  "str_includes [] t = (t = [])"
| "str_includes (c # cs) t = (prefix t (c # cs) \<or> str_includes cs t)"

text \<open>
  JSON numbers are doubles; none of the code below computes with one, it only tests
  whether a value is falsy (\<open>0\<close>, \<open>-0\<close> and \<open>NaN\<close> are).
\<close>

datatype jsnum = NaN | PosInf | NegInf | Finite rat

text \<open>
  A value as \<open>JSON.parse\<close> and \<open>resp.json()\<close> deliver it and as the plan generator returns
  it. An object is its list of own properties in insertion order. An array carries, next to
  its elements, the named properties that an assignment \<open>a.k = v\<close> adds to it.
\<close>

datatype jsval =
    Undefined
  | Null
  | Bool bool
  | Num jsnum
  | Str jsstring
  | Arr "jsval list" "(jsstring \<times> jsval) list"
  | Obj "(jsstring \<times> jsval) list"

text \<open>
  What a \<open>throw\<close> carries. Every throw site of the two modules builds \<open>new Error(msg)\<close>, and
  the platform (\<open>fetch\<close>, \<open>resp.json()\<close>, \<open>JSON.parse\<close>, the SDK, the engine's own TypeError and
  RangeError) raises instances of \<open>Error\<close>: a name and a message.
\<close>

datatype thrown = ErrorObj (err_name: jsstring) (err_message: jsstring)

definition new_Error :: "jsstring \<Rightarrow> thrown" where
  "new_Error msg = ErrorObj (ascii ''Error'') msg"

fun truthy :: "jsval \<Rightarrow> bool" where
  "truthy Undefined = False"
| "truthy Null = False"
| "truthy (Bool b) = b"
| "truthy (Num n) = (n \<noteq> NaN \<and> n \<noteq> Finite 0)"
| "truthy (Str s) = (s \<noteq> [])"
| "truthy (Arr xs ps) = True"
| "truthy (Obj ps) = True"

fun nullish :: "jsval \<Rightarrow> bool" where
  "nullish Undefined = True"
| "nullish Null = True"
| "nullish v = False"

text \<open>An optional string parameter (\<open>styleInput?: string\<close>) as the value it has at run time.\<close>

fun opt_str :: "jsstring option \<Rightarrow> jsval" where
  "opt_str None = Undefined"
| "opt_str (Some s) = Str s"

datatype Language = En | Zh

datatype Provider = Google | Zenmux

section \<open>The fallback plan\<close>

text \<open>
  \<open>Array.from({ length: slideCount })\<close> takes the length through ToLength (a negative count
  gives the empty array) and then constructs \<open>new Array(len)\<close>, which throws a RangeError
  once \<open>len\<close> exceeds \<open>2^32 - 1\<close>. The count is the integer the upload form holds.
\<close>

definition RangeError :: thrown where
  "RangeError = ErrorObj (ascii ''RangeError'') (ascii ''Invalid array length'')"

definition Array_from_length :: "int \<Rightarrow> thrown + nat list" where
  "Array_from_length len =
     (if len \<ge> 2 ^ 32 then Inl RangeError else Inr [0 ..< nat len])"

definition fallback_slide :: "Language \<Rightarrow> nat \<Rightarrow> jsval" where
  "fallback_slide outputLanguage i = Obj
     [(ascii ''id'', Str (ascii ''slide-'' @ decimal i)),
      (ascii ''title'',
         Str ((if outputLanguage = Zh then [0x5E7B, 0x706F, 0x7247] else ascii ''Slide'')
              @ ascii '' '' @ decimal (i + 1))),
      (ascii ''bullets'', Arr
         [Str (if outputLanguage = Zh
               then [0x5185, 0x5BB9, 0x751F, 0x6210, 0x5931, 0x8D25, 0x3002]
               else ascii ''Content generation failed.''),
          Str (if outputLanguage = Zh
               then [0x8BF7, 0x624B, 0x52A8, 0x7F16, 0x8F91, 0x3002]
               else ascii ''Please edit manually.'')] []),
      (ascii ''visualNote'', Str (ascii ''Placeholder'')),
      (ascii ''selectedImageIds'', Arr [] [])]"

definition createFallbackPlan :: "int \<Rightarrow> Language \<Rightarrow> jsstring option \<Rightarrow> thrown + jsval" where
  "createFallbackPlan slideCount outputLanguage styleInput =
     (case Array_from_length slideCount of
        Inl e \<Rightarrow> Inl e
      | Inr idx \<Rightarrow> Inr (Obj
          [(ascii ''topic'',
              Str (if outputLanguage = Zh
                   then [0x751F, 0x6210, 0x7684, 0x6F14, 0x793A, 0x6587, 0x7A3F]
                   else ascii ''Generated Presentation'')),
           (ascii ''style'', opt_str styleInput),
           (ascii ''slides'', Arr (map (fallback_slide outputLanguage) idx) [])]))"

section \<open>JSON.parse\<close>

text \<open>
  \<open>JSON.parse\<close> is the engine's, not the repository's; this is the JSON grammar of
  ECMA-404 as ECMAScript applies it, in two passes that read their input once from the
  left: a lexer that turns code units into tokens, and a parser that keeps the open
  arrays and objects on a stack. The lexer takes a literal name letter by letter and a
  number as the longest run of number characters, checked against the number grammar
  when the run ends; two values that touch each other are rejected by the parser.
\<close>

datatype token =
    TLBrace | TRBrace | TLBracket | TRBracket | TColon | TComma
  | TString jsstring | TNumber jsstring | TTrue | TFalse | TNull

text \<open>Where the lexer is; the text collected so far is kept in reverse.\<close>

datatype lex_mode =
    Outside
  | InLiteral token jsstring
  | InNumber jsstring
  | InString jsstring
  | InEscape jsstring
  | InUnicode jsstring "16 word list"

definition json_space :: "16 word \<Rightarrow> bool" where
  "json_space c \<longleftrightarrow> c = 0x20 \<or> c = 0x9 \<or> c = 0xA \<or> c = 0xD"

definition is_digit :: "16 word \<Rightarrow> bool" where
  "is_digit c \<longleftrightarrow> 0x30 \<le> c \<and> c \<le> 0x39"

definition number_char :: "16 word \<Rightarrow> bool" where
  "number_char c \<longleftrightarrow> is_digit c \<or> c = 0x2B \<or> c = 0x2D \<or> c = 0x2E \<or> c = 0x45 \<or> c = 0x65"

text \<open>The number grammar: \<open>-? (0 | [1-9][0-9]*) (. [0-9]+)? ([eE] [+-]? [0-9]+)?\<close>\<close>

definition valid_exponent :: "jsstring \<Rightarrow> bool" where
  "valid_exponent s =
     (case s of
        [] \<Rightarrow> True
      | e # r \<Rightarrow>
          (e = 0x65 \<or> e = 0x45) \<and>
          (let ds = (case r of
                       [] \<Rightarrow> []
                     | sign # r' \<Rightarrow> if sign = 0x2B \<or> sign = 0x2D then r' else r)
           in ds \<noteq> [] \<and> list_all is_digit ds))"

definition valid_fraction :: "jsstring \<Rightarrow> bool" where
  "valid_fraction s =
     (case s of
        [] \<Rightarrow> True
      | c # r \<Rightarrow>
          if c = 0x2E
          then takeWhile is_digit r \<noteq> [] \<and> valid_exponent (dropWhile is_digit r)
          else valid_exponent s)"

definition valid_integer :: "jsstring \<Rightarrow> bool" where
  "valid_integer s =
     (case s of
        [] \<Rightarrow> False
      | c # r \<Rightarrow>
          if c = 0x30 then valid_fraction r
          else if is_digit c then valid_fraction (dropWhile is_digit r)
          else False)"

definition valid_number :: "jsstring \<Rightarrow> bool" where
  "valid_number s =
     (case s of
        [] \<Rightarrow> False
      | c # r \<Rightarrow> if c = 0x2D then valid_integer r else valid_integer s)"

definition hex_digit :: "16 word \<Rightarrow> 16 word option" where
  "hex_digit c =
     (if 0x30 \<le> c \<and> c \<le> 0x39 then Some (c - 0x30)
      else if 0x41 \<le> c \<and> c \<le> 0x46 then Some (c - 0x37)
      else if 0x61 \<le> c \<and> c \<le> 0x66 then Some (c - 0x57)
      else None)"

definition hex_value :: "16 word list \<Rightarrow> 16 word" where
  "hex_value ds = foldl (\<lambda>v d. 16 * v + d) 0 ds"

definition outside_step :: "token list \<Rightarrow> 16 word \<Rightarrow> (token list \<times> lex_mode) option" where
  "outside_step ts c =
     (if json_space c then Some (ts, Outside)
      else if c = 0x7B then Some (TLBrace # ts, Outside)
      else if c = 0x7D then Some (TRBrace # ts, Outside)
      else if c = 0x5B then Some (TLBracket # ts, Outside)
      else if c = 0x5D then Some (TRBracket # ts, Outside)
      else if c = 0x3A then Some (TColon # ts, Outside)
      else if c = 0x2C then Some (TComma # ts, Outside)
      else if c = 0x22 then Some (ts, InString [])
      else if c = 0x74 then Some (ts, InLiteral TTrue (ascii ''rue''))
      else if c = 0x66 then Some (ts, InLiteral TFalse (ascii ''alse''))
      else if c = 0x6E then Some (ts, InLiteral TNull (ascii ''ull''))
      else if c = 0x2D \<or> is_digit c then Some (ts, InNumber [c])
      else None)"

text \<open>One code unit; the tokens read so far are kept in reverse. \<open>None\<close> is a SyntaxError.\<close>

fun lex_step :: "token list \<times> lex_mode \<Rightarrow> 16 word \<Rightarrow> (token list \<times> lex_mode) option" where
  "lex_step (ts, Outside) c = outside_step ts c"
| "lex_step (ts, InLiteral tok rest) c =
     (case rest of
        [] \<Rightarrow> None
      | r # rs \<Rightarrow>
          if c \<noteq> r then None
          else if rs = [] then Some (tok # ts, Outside)
          else Some (ts, InLiteral tok rs))"
| "lex_step (ts, InNumber acc) c =
     (if number_char c then Some (ts, InNumber (c # acc))
      else if valid_number (rev acc) then outside_step (TNumber (rev acc) # ts) c
      else None)"
| "lex_step (ts, InString acc) c =
     (if c = 0x22 then Some (TString (rev acc) # ts, Outside)
      else if c = 0x5C then Some (ts, InEscape acc)
      else if c < 0x20 then None
      else Some (ts, InString (c # acc)))"
| "lex_step (ts, InEscape acc) c =
     (if c = 0x22 \<or> c = 0x5C \<or> c = 0x2F then Some (ts, InString (c # acc))
      else if c = 0x62 then Some (ts, InString (0x8 # acc))
      else if c = 0x66 then Some (ts, InString (0xC # acc))
      else if c = 0x6E then Some (ts, InString (0xA # acc))
      else if c = 0x72 then Some (ts, InString (0xD # acc))
      else if c = 0x74 then Some (ts, InString (0x9 # acc))
      else if c = 0x75 then Some (ts, InUnicode acc [])
      else None)"
| "lex_step (ts, InUnicode acc hs) c =
     (case hex_digit c of
        None \<Rightarrow> None
      | Some d \<Rightarrow>
          if length hs = 3 then Some (ts, InString (hex_value (hs @ [d]) # acc))
          else Some (ts, InUnicode acc (hs @ [d])))"

fun lex_run :: "token list \<times> lex_mode \<Rightarrow> jsstring \<Rightarrow> (token list \<times> lex_mode) option" where
  "lex_run st [] = Some st"
| "lex_run st (c # cs) = (case lex_step st c of None \<Rightarrow> None | Some st' \<Rightarrow> lex_run st' cs)"

text \<open>The end of the text: only between tokens, or at the end of a number.\<close>

fun lex_end :: "token list \<times> lex_mode \<Rightarrow> token list option" where
  "lex_end (ts, Outside) = Some (rev ts)"
| "lex_end (ts, InNumber acc) =
     (if valid_number (rev acc) then Some (rev (TNumber (rev acc) # ts)) else None)"
| "lex_end (ts, m) = None"

definition tokenize :: "jsstring \<Rightarrow> token list option" where
  "tokenize s = (case lex_run ([], Outside) s of None \<Rightarrow> None | Some st \<Rightarrow> lex_end st)"

text \<open>
  The parser's stack: an open array with its elements so far (in reverse), an open object
  with its members so far and the key that waits for its value. A key that comes twice
  keeps its place and takes the later value.
\<close>

datatype frame = FArray "jsval list" | FObject "(jsstring \<times> jsval) list" "jsstring option"

datatype expect = Value | ValueOrClose | KeyOrClose | Key | Colon | CommaOrClose | Finished jsval

definition deliver :: "frame list \<Rightarrow> jsval \<Rightarrow> (frame list \<times> expect) option" where
  "deliver stack v =
     (case stack of
        [] \<Rightarrow> Some ([], Finished v)
      | FArray xs # fs \<Rightarrow> Some (FArray (v # xs) # fs, CommaOrClose)
      | FObject ms (Some k) # fs \<Rightarrow> Some (FObject (AList.update k v ms) None # fs, CommaOrClose)
      | FObject ms None # fs \<Rightarrow> None)"

definition close_array :: "frame list \<Rightarrow> (frame list \<times> expect) option" where
  "close_array stack =
     (case stack of FArray xs # fs \<Rightarrow> deliver fs (Arr (rev xs) []) | _ \<Rightarrow> None)"

definition close_object :: "frame list \<Rightarrow> (frame list \<times> expect) option" where
  "close_object stack =
     (case stack of FObject ms None # fs \<Rightarrow> deliver fs (Obj ms) | _ \<Rightarrow> None)"

text \<open>\<open>number_of\<close> is the engine's conversion of a number literal to a double.\<close>

definition value_step ::
  "(jsstring \<Rightarrow> jsnum) \<Rightarrow> frame list \<Rightarrow> token \<Rightarrow> (frame list \<times> expect) option" where
  "value_step number_of stack tok =
     (case tok of
        TLBracket \<Rightarrow> Some (FArray [] # stack, ValueOrClose)
      | TLBrace \<Rightarrow> Some (FObject [] None # stack, KeyOrClose)
      | TString s \<Rightarrow> deliver stack (Str s)
      | TNumber n \<Rightarrow> deliver stack (Num (number_of n))
      | TTrue \<Rightarrow> deliver stack (Bool True)
      | TFalse \<Rightarrow> deliver stack (Bool False)
      | TNull \<Rightarrow> deliver stack Null
      | _ \<Rightarrow> None)"

definition key_step :: "frame list \<Rightarrow> token \<Rightarrow> (frame list \<times> expect) option" where
  "key_step stack tok =
     (case tok of
        TString k \<Rightarrow>
          (case stack of
             FObject ms None # fs \<Rightarrow> Some (FObject ms (Some k) # fs, Colon)
           | _ \<Rightarrow> None)
      | _ \<Rightarrow> None)"

definition parse_step ::
  "(jsstring \<Rightarrow> jsnum) \<Rightarrow> frame list \<times> expect \<Rightarrow> token \<Rightarrow> (frame list \<times> expect) option" where
  "parse_step number_of st tok =
     (case snd st of
        Value \<Rightarrow> value_step number_of (fst st) tok
      | ValueOrClose \<Rightarrow>
          if tok = TRBracket then close_array (fst st) else value_step number_of (fst st) tok
      | KeyOrClose \<Rightarrow>
          if tok = TRBrace then close_object (fst st) else key_step (fst st) tok
      | Key \<Rightarrow> key_step (fst st) tok
      | Colon \<Rightarrow> if tok = TColon then Some (fst st, Value) else None
      | CommaOrClose \<Rightarrow>
          (case tok of
             TComma \<Rightarrow>
               (case fst st of
                  FArray xs # fs \<Rightarrow> Some (fst st, Value)
                | FObject ms k # fs \<Rightarrow> Some (fst st, Key)
                | [] \<Rightarrow> None)
           | TRBracket \<Rightarrow> close_array (fst st)
           | TRBrace \<Rightarrow> close_object (fst st)
           | _ \<Rightarrow> None)
      | Finished v \<Rightarrow> None)"

fun parse_run ::
  "(jsstring \<Rightarrow> jsnum) \<Rightarrow> frame list \<times> expect \<Rightarrow> token list \<Rightarrow> (frame list \<times> expect) option" where
  "parse_run number_of st [] = Some st"
| "parse_run number_of st (tok # toks) =
     (case parse_step number_of st tok of
        None \<Rightarrow> None
      | Some st' \<Rightarrow> parse_run number_of st' toks)"

definition parse_tokens :: "(jsstring \<Rightarrow> jsnum) \<Rightarrow> token list \<Rightarrow> jsval option" where
  "parse_tokens number_of toks =
     (case parse_run number_of ([], Value) toks of
        Some ([], Finished v) \<Rightarrow> Some v
      | _ \<Rightarrow> None)"

definition json_decode :: "(jsstring \<Rightarrow> jsnum) \<Rightarrow> jsstring \<Rightarrow> jsval option" where
  "json_decode number_of s =
     (case tokenize s of None \<Rightarrow> None | Some toks \<Rightarrow> parse_tokens number_of toks)"

section \<open>Reading and writing properties\<close>

text \<open>
  What the language leaves to the engine: the value of a number literal, the SyntaxError
  that \<open>JSON.parse\<close> raises on a text, the conversion ToString of a value that is not a
  string (it can throw when an object has no usable \<open>toString\<close>), and the TypeError
  raised at an illegal operation; messages differ from engine to engine. The argument of
  \<open>TypeError\<close> names the expression of the source where it is raised.
\<close>

record platform =
  number_value :: "jsstring \<Rightarrow> jsnum"
  SyntaxError :: "jsstring \<Rightarrow> thrown"
  ToString :: "jsval \<Rightarrow> thrown + jsstring"
  TypeError :: "string \<Rightarrow> thrown"

definition JSON_parse :: "platform \<Rightarrow> jsstring \<Rightarrow> thrown + jsval" where
  "JSON_parse P s =
     (case json_decode (number_value P) s of
        None \<Rightarrow> Inl (SyntaxError P s)
      | Some v \<Rightarrow> Inr v)"

definition to_string :: "platform \<Rightarrow> jsval \<Rightarrow> thrown + jsstring" where
  "to_string P v = (case v of Str s \<Rightarrow> Inr s | _ \<Rightarrow> ToString P v)"

text \<open>
  \<open>v.k\<close> on a value that is neither \<open>null\<close> nor \<open>undefined\<close>, for the property names the
  source reads (\<open>error\<close>, \<open>message\<close>, \<open>choices\<close>, \<open>content\<close>, \<open>slides\<close>, \<open>imageBase64\<close>,
  \<open>candidates\<close>, \<open>parts\<close>, \<open>inlineData\<close>, \<open>data\<close>): none of them is on a built-in prototype,
  so only own properties answer, and a primitive answers \<open>undefined\<close>.
\<close>

fun lookup :: "jsval \<Rightarrow> jsstring \<Rightarrow> jsval" where
  "lookup (Obj ps) k = (case map_of ps k of Some v \<Rightarrow> v | None \<Rightarrow> Undefined)"
| "lookup (Arr xs ps) k = (case map_of ps k of Some v \<Rightarrow> v | None \<Rightarrow> Undefined)"
| "lookup v k = Undefined"

text \<open>\<open>v[0]\<close> on such a value: the first element of an array, the first code unit of a string.\<close>

fun index0 :: "jsval \<Rightarrow> jsval" where
  "index0 (Arr xs ps) = (case xs of [] \<Rightarrow> Undefined | x # _ \<Rightarrow> x)"
| "index0 (Str s) = (case s of [] \<Rightarrow> Undefined | c # _ \<Rightarrow> Str [c])"
| "index0 (Obj ps) = lookup (Obj ps) (ascii ''0'')"
| "index0 v = Undefined"

text \<open>The plain read \<open>v.k\<close> throws on \<open>null\<close> and \<open>undefined\<close>; the optional read \<open>v?.k\<close> does not.\<close>

definition get_prop :: "platform \<Rightarrow> string \<Rightarrow> jsval \<Rightarrow> jsstring \<Rightarrow> thrown + jsval" where
  "get_prop P site v k = (if nullish v then Inl (TypeError P site) else Inr (lookup v k))"

definition opt_prop :: "jsval \<Rightarrow> jsstring \<Rightarrow> jsval" where
  "opt_prop v k = (if nullish v then Undefined else lookup v k)"

definition opt_index0 :: "jsval \<Rightarrow> jsval" where
  "opt_index0 v = (if nullish v then Undefined else index0 v)"

text \<open>
  The assignment \<open>v.k = x\<close>. Both files are ES modules, hence strict code: assigning a
  property of a primitive throws a TypeError, as it does on \<open>null\<close> and \<open>undefined\<close>.
\<close>

fun put :: "jsval \<Rightarrow> jsstring \<Rightarrow> jsval \<Rightarrow> jsval" where
  "put (Obj ps) k x = Obj (AList.update k x ps)"
| "put (Arr xs ps) k x = Arr xs (AList.update k x ps)"
| "put v k x = v"

fun is_object :: "jsval \<Rightarrow> bool" where
  "is_object (Obj ps) = True"
| "is_object (Arr xs ps) = True"
| "is_object v = False"

definition set_prop :: "platform \<Rightarrow> string \<Rightarrow> jsval \<Rightarrow> jsstring \<Rightarrow> jsval \<Rightarrow> thrown + jsval" where
  "set_prop P site v k x = (if is_object v then Inr (put v k x) else Inl (TypeError P site))"

section \<open>String operations of the fence stripping\<close>

text \<open>\<open>s.split(sep)\<close> for a separator that is not empty: never the empty list.\<close>

function str_split :: "jsstring \<Rightarrow> jsstring \<Rightarrow> jsstring list" where
  "str_split sep [] = [[]]"
| "str_split sep (c # cs) =
     (if sep \<noteq> [] \<and> prefix sep (c # cs)
      then [] # str_split sep (drop (length sep) (c # cs))
      else (case str_split sep cs of [] \<Rightarrow> [[c]] | p # ps \<Rightarrow> (c # p) # ps))"
  by pat_completeness auto
termination
  by (relation "measure (\<lambda>(sep, s). length s)") (auto simp: neq_Nil_conv)

text \<open>White space and line terminators, which \<open>trim()\<close> removes at both ends.\<close>

definition is_space :: "16 word \<Rightarrow> bool" where
  "is_space c \<longleftrightarrow>
     c \<in> {0x9, 0xA, 0xB, 0xC, 0xD, 0x20, 0xA0, 0x1680, 0x2028, 0x2029, 0x202F, 0x205F,
          0x3000, 0xFEFF} \<or> (0x2000 \<le> c \<and> c \<le> 0x200A)"

definition trim :: "jsstring \<Rightarrow> jsstring" where
  "trim s = rev (dropWhile is_space (rev (dropWhile is_space s)))"

text \<open>\<open>xs[i]\<close> is \<open>undefined\<close> beyond the end, and calling a method on that throws.\<close>

definition nth_opt :: "'a list \<Rightarrow> nat \<Rightarrow> 'a option" where
  "nth_opt xs i = (if i < length xs then Some (xs ! i) else None)"

definition fence_json :: jsstring where
  "fence_json = ascii ''```json''"

definition fence :: jsstring where
  "fence = ascii ''```''"

definition between_fences :: "platform \<Rightarrow> jsstring \<Rightarrow> jsstring \<Rightarrow> thrown + jsstring" where
  "between_fences P opening content =
     (case nth_opt (str_split opening content) 1 of
        None \<Rightarrow> Inl (TypeError P ''content.split(...)[1].split'')
      | Some rest \<Rightarrow>
          (case nth_opt (str_split fence rest) 0 of
             None \<Rightarrow> Inl (TypeError P ''content.split(...)[1].split(...)[0].trim'')
           | Some body \<Rightarrow> Inr (trim body)))"

text \<open>
  Lines 145 to 150, on whatever \<open>choices[0].message.content\<close> holds. On an array,
  \<open>includes\<close> is the array's (is the fence one of the elements?) and \<open>split\<close> does not exist;
  on any other value that is not a string, \<open>includes\<close> is not a function.
\<close>

definition clean_markdown :: "platform \<Rightarrow> jsval \<Rightarrow> thrown + jsval" where
  "clean_markdown P content =
     (case content of
        Str s \<Rightarrow>
          if str_includes s fence_json then
            (case between_fences P fence_json s of Inl e \<Rightarrow> Inl e | Inr body \<Rightarrow> Inr (Str body))
          else if str_includes s fence then
            (case between_fences P fence s of Inl e \<Rightarrow> Inl e | Inr body \<Rightarrow> Inr (Str body))
          else Inr (Str s)
      | Arr xs ps \<Rightarrow>
          if map_of ps (ascii ''includes'') \<noteq> None then Inl (TypeError P ''content.includes'')
          else if Str fence_json \<in> set xs \<or> Str fence \<in> set xs
          then Inl (TypeError P ''content.split'')
          else Inr (Arr xs ps)
      | _ \<Rightarrow> Inl (TypeError P ''content.includes''))"

section \<open>The plan generator\<close>

text \<open>
  The outside world of one call of \<open>generateSlidePlan\<close>. The prompt, the URLs and the key
  only travel in the request, and the request is answered by the world: \<open>fetch_chat\<close> is
  how the POST to \<open>/api/zenmux/v1/chat/completions\<close> settles (rejected, or a response with
  its \<open>ok\<close> flag and the outcome of \<open>resp.json()\<close>), \<open>sdk_new\<close> is what constructing the SDK
  client throws (with the key lookup of \<open>getApiKey\<close>), \<open>sdk_plan\<close> is how
  \<open>ai.models.generateContent\<close> settles, as the \<open>text\<close> of the response. The log sink only
  records entries and is left out.
\<close>

datatype http_response = Response (ok: bool) (json: "thrown + jsval")

record plan_world =
  fetch_chat :: "thrown + http_response"
  sdk_new :: "thrown option"
  sdk_plan :: "thrown + jsstring option"

text \<open>\<open>new Error(x || fallback)\<close>: the message is ToString of the value.\<close>

definition new_Error_of :: "platform \<Rightarrow> jsval \<Rightarrow> thrown" where
  "new_Error_of P v = (case to_string P v of Inl e \<Rightarrow> e | Inr msg \<Rightarrow> new_Error msg)"

text \<open>\<open>throw new Error(data.error?.message || dflt)\<close>\<close>

definition api_error :: "platform \<Rightarrow> jsval \<Rightarrow> jsstring \<Rightarrow> thrown" where
  "api_error P data dflt =
     (case get_prop P ''data.error'' data (ascii ''error'') of
        Inl e \<Rightarrow> e
      | Inr err \<Rightarrow>
          (let m = opt_prop err (ascii ''message'')
           in new_Error_of P (if truthy m then m else Str dflt)))"

text \<open>\<open>slides.forEach(s => s.selectedImageIds = [])\<close>, element by element.\<close>

fun clear_selected :: "platform \<Rightarrow> jsval list \<Rightarrow> thrown + jsval list" where
  "clear_selected P [] = Inr []"
| "clear_selected P (s # ss) =
     (case set_prop P ''s.selectedImageIds'' s (ascii ''selectedImageIds'') (Arr [] []) of
        Inl e \<Rightarrow> Inl e
      | Inr s' \<Rightarrow>
          (case clear_selected P ss of Inl e \<Rightarrow> Inl e | Inr ss' \<Rightarrow> Inr (s' # ss')))"

text \<open>\<open>forEach\<close> exists on arrays only (and not under an own property of that name).\<close>

definition slides_forEach :: "platform \<Rightarrow> jsval \<Rightarrow> thrown + jsval" where
  "slides_forEach P slides =
     (case slides of
        Arr xs ps \<Rightarrow>
          if map_of ps (ascii ''forEach'') \<noteq> None then Inl (TypeError P ''parsed.slides.forEach'')
          else (case clear_selected P xs of Inl e \<Rightarrow> Inl e | Inr xs' \<Rightarrow> Inr (Arr xs' ps))
      | _ \<Rightarrow> Inl (TypeError P ''parsed.slides.forEach''))"

text \<open>
  Lines 152 to 157 and 216 to 220: parse, store style and requirements, reset the image
  selections. Only the gateway branch has the explicit test \<open>!parsed.slides\<close>.
\<close>

definition parse_plan ::
  "platform \<Rightarrow> bool \<Rightarrow> jsval \<Rightarrow> jsstring option \<Rightarrow> jsstring option \<Rightarrow> thrown + jsval" where
  "parse_plan P check_slides content styleInput requirementsInput =
     (case to_string P content of
        Inl e \<Rightarrow> Inl e
      | Inr text \<Rightarrow>
     (case JSON_parse P text of
        Inl e \<Rightarrow> Inl e
      | Inr parsed \<Rightarrow>
     (case set_prop P ''parsed.style'' parsed (ascii ''style'') (opt_str styleInput) of
        Inl e \<Rightarrow> Inl e
      | Inr parsed1 \<Rightarrow>
     (case set_prop P ''parsed.requirements'' parsed1 (ascii ''requirements'')
             (opt_str requirementsInput) of
        Inl e \<Rightarrow> Inl e
      | Inr parsed2 \<Rightarrow>
          (let slides = lookup parsed2 (ascii ''slides'')
           in if check_slides \<and> \<not> truthy slides
              then Inl (new_Error (ascii ''Invalid JSON structure from Zenmux''))
              else (case slides_forEach P slides of
                      Inl e \<Rightarrow> Inl e
                    | Inr slides' \<Rightarrow> Inr (put parsed2 (ascii ''slides'') slides')))))))"

text \<open>\<open>data.choices?.[0]?.message?.content\<close>\<close>

definition choice_content :: "platform \<Rightarrow> jsval \<Rightarrow> thrown + jsval" where
  "choice_content P data =
     (case get_prop P ''data.choices'' data (ascii ''choices'') of
        Inl e \<Rightarrow> Inl e
      | Inr choices \<Rightarrow>
          Inr (opt_prop (opt_prop (opt_index0 choices) (ascii ''message'')) (ascii ''content'')))"

text \<open>The body of the \<open>try\<close> of the gateway branch (lines 117 to 157).\<close>

definition zenmux_plan_try ::
  "platform \<Rightarrow> thrown + http_response \<Rightarrow> jsstring option \<Rightarrow> jsstring option \<Rightarrow> thrown + jsval" where
  "zenmux_plan_try P fetched styleInput requirementsInput =
     (case fetched of
        Inl e \<Rightarrow> Inl e
      | Inr resp \<Rightarrow>
     (case json resp of
        Inl e \<Rightarrow> Inl e
      | Inr data \<Rightarrow>
          if \<not> ok resp then Inl (api_error P data (ascii ''Zenmux API Error''))
          else
     (case choice_content P data of
        Inl e \<Rightarrow> Inl e
      | Inr content \<Rightarrow>
          if \<not> truthy content then Inl (new_Error (ascii ''No content in Zenmux response''))
          else
     (case clean_markdown P content of
        Inl e \<Rightarrow> Inl e
      | Inr cleaned \<Rightarrow> parse_plan P True cleaned styleInput requirementsInput))))"

text \<open>The body of the \<open>try\<close> of the SDK branch (lines 169 to 222).\<close>

definition google_plan_try ::
  "platform \<Rightarrow> thrown + jsstring option \<Rightarrow> jsstring option \<Rightarrow> jsstring option \<Rightarrow> thrown + jsval" where
  "google_plan_try P generated styleInput requirementsInput =
     (case generated of
        Inl e \<Rightarrow> Inl e
      | Inr text \<Rightarrow>
          if truthy (opt_str text)
          then parse_plan P False (opt_str text) styleInput requirementsInput
          else Inl (new_Error (ascii ''Empty response from AI'')))"

text \<open>
  \<open>generateSlidePlan\<close>: \<open>Inl\<close> is a rejected promise. Each branch catches whatever its \<open>try\<close>
  throws and answers with the fallback plan; the SDK client is constructed before the \<open>try\<close>.
\<close>

definition generateSlidePlan ::
  "platform \<Rightarrow> plan_world \<Rightarrow> int \<Rightarrow> Language \<Rightarrow> jsstring option \<Rightarrow> jsstring option \<Rightarrow> Provider
     \<Rightarrow> thrown + jsval" where
  "generateSlidePlan P W slideCount outputLanguage styleInput requirementsInput provider =
     (if provider = Zenmux then
        (case zenmux_plan_try P (fetch_chat W) styleInput requirementsInput of
           Inr parsed \<Rightarrow> Inr parsed
         | Inl error \<Rightarrow> createFallbackPlan slideCount outputLanguage styleInput)
      else
        (case sdk_new W of
           Some e \<Rightarrow> Inl e
         | None \<Rightarrow>
            (case google_plan_try P (sdk_plan W) styleInput requirementsInput of
               Inr parsed \<Rightarrow> Inr parsed
             | Inl error \<Rightarrow> createFallbackPlan slideCount outputLanguage styleInput)))"

text \<open>The attempt of the selected branch throws: the \<open>catch\<close> of that branch runs.\<close>

definition plan_failure ::
  "platform \<Rightarrow> plan_world \<Rightarrow> jsstring option \<Rightarrow> jsstring option \<Rightarrow> Provider \<Rightarrow> bool" where
  "plan_failure P W styleInput requirementsInput provider =
     (if provider = Zenmux
      then isl (zenmux_plan_try P (fetch_chat W) styleInput requirementsInput)
      else isl (google_plan_try P (sdk_plan W) styleInput requirementsInput))"

section \<open>The fence round trip\<close>

text \<open>
  The part of the gateway's \<open>try\<close> that follows the test for content (lines 145 to 157),
  and an answer wrapped in a fenced block: the opening fence with its tag, a line feed,
  the text, a line feed, the closing fence.
\<close>

definition gateway_parse ::
  "platform \<Rightarrow> jsval \<Rightarrow> jsstring option \<Rightarrow> jsstring option \<Rightarrow> thrown + jsval" where
  "gateway_parse P content styleInput requirementsInput =
     (case clean_markdown P content of
        Inl e \<Rightarrow> Inl e
      | Inr cleaned \<Rightarrow> parse_plan P True cleaned styleInput requirementsInput)"

definition fenced :: "jsstring \<Rightarrow> jsstring" where
  "fenced s = fence_json @ 0xA # s @ 0xA # fence"

section \<open>The slide image generator\<close>

text \<open>
  The response of the SDK's \<open>generateContent\<close>, with the types the SDK declares and the
  fields the code reads: \<open>candidates?: Candidate[]\<close>, \<open>content?: Content\<close>,
  \<open>parts?: Part[]\<close>, \<open>inlineData?: Blob\<close>, \<open>data?: string\<close>.
\<close>

datatype Blob = Blob (blob_data: "jsstring option")

datatype Part = Part (part_inlineData: "Blob option")

datatype Content = Content (content_parts: "Part list option")

datatype Candidate = Candidate (candidate_content: "Content option")

datatype GenerateContentResponse =
  GenerateContentResponse (response_candidates: "Candidate list option")

text \<open>
  The outside world of one call of \<open>generateFinalSlideImage\<close>: how the POST to the gateway
  settles, what constructing the SDK client throws, and how \<open>generateContent\<close> settles for
  a model name. The slide, the style and the reference images only travel in the request.
  A call returns, next to its result, the requests it has sent, in order.
\<close>

record image_world =
  fetch_image :: "thrown + http_response"
  image_sdk_new :: "thrown option"
  sdk_generate :: "jsstring \<Rightarrow> thrown + GenerateContentResponse"

datatype api_call = Fetch jsstring | Generate jsstring

definition zenmux_image_url :: jsstring where
  "zenmux_image_url =
     ascii ''/api/zenmux/vertex-ai/v1/models/google/gemini-3-pro-image-preview:generateContent''"

definition primary_model :: jsstring where
  "primary_model = ascii ''gemini-3-pro-image-preview''"

definition fallback_model :: jsstring where
  "fallback_model = ascii ''gemini-2.5-flash-image''"

definition data_uri :: "jsstring \<Rightarrow> jsstring" where
  "data_uri b64 = ascii ''data:image/png;base64,'' @ b64"

text \<open>\<open>data.candidates?.[0]?.content?.parts\<close>, on \<open>data\<close> that is not nullish.\<close>

definition candidate_parts :: "jsval \<Rightarrow> jsval" where
  "candidate_parts data =
     opt_prop (opt_prop (opt_index0 (lookup data (ascii ''candidates''))) (ascii ''content''))
       (ascii ''parts'')"

text \<open>\<open>data.candidates?.[0]?.content?.parts?.[0]?.inlineData?.data\<close>\<close>

definition first_part_data :: "jsval \<Rightarrow> jsval" where
  "first_part_data data =
     opt_prop (opt_prop (opt_index0 (candidate_parts data)) (ascii ''inlineData''))
       (ascii ''data'')"

text \<open>The loop of lines 362 to 367 over the elements of an array; \<open>''\<close> when none has data.\<close>

fun scan_parts :: "platform \<Rightarrow> jsval list \<Rightarrow> thrown + jsval" where
  "scan_parts P [] = Inr (Str [])"
| "scan_parts P (p # ps) =
     (case get_prop P ''p.inlineData'' p (ascii ''inlineData'') of
        Inl e \<Rightarrow> Inl e
      | Inr i \<Rightarrow>
          if truthy i \<and> truthy (lookup i (ascii ''data''))
          then Inr (lookup i (ascii ''data''))
          else scan_parts P ps)"

text \<open>
  \<open>for (const p of parts)\<close> on a truthy value: an array gives its elements, a string its
  characters (primitives, whose \<open>inlineData\<close> is \<open>undefined\<close>), anything else is not iterable.
\<close>

definition iterate_parts :: "platform \<Rightarrow> jsval \<Rightarrow> thrown + jsval" where
  "iterate_parts P parts =
     (case parts of
        Arr xs ps \<Rightarrow> scan_parts P xs
      | Str s \<Rightarrow> Inr (Str [])
      | _ \<Rightarrow> Inl (TypeError P ''for (const p of parts)''))"

text \<open>Lines 353 to 368: where the gateway's answer may hold the image.\<close>

definition zenmux_b64 :: "platform \<Rightarrow> jsval \<Rightarrow> thrown + jsval" where
  "zenmux_b64 P data =
     (case get_prop P ''data.imageBase64'' data (ascii ''imageBase64'') of
        Inl e \<Rightarrow> Inl e
      | Inr direct \<Rightarrow>
          if truthy direct then Inr direct
          else if truthy (first_part_data data) then Inr (first_part_data data)
          else if truthy (candidate_parts data) then iterate_parts P (candidate_parts data)
          else Inr (Str []))"

text \<open>The body of the \<open>try\<close> of the gateway branch (lines 325 to 375).\<close>

definition zenmux_image_try :: "platform \<Rightarrow> thrown + http_response \<Rightarrow> thrown + jsstring" where
  "zenmux_image_try P fetched =
     (case fetched of
        Inl e \<Rightarrow> Inl e
      | Inr resp \<Rightarrow>
     (case json resp of
        Inl e \<Rightarrow> Inl e
      | Inr data \<Rightarrow>
          if \<not> ok resp then Inl (api_error P data (ascii ''Zenmux Image API Error''))
          else
     (case zenmux_b64 P data of
        Inl e \<Rightarrow> Inl e
      | Inr b64 \<Rightarrow>
          if \<not> truthy b64
          then Inl (new_Error (ascii ''No image data found in Zenmux response''))
          else (case to_string P b64 of Inl e \<Rightarrow> Inl e | Inr str \<Rightarrow> Inr (data_uri str)))))"

text \<open>\<open>response.candidates?.[0]?.content?.parts || []\<close>\<close>

definition response_parts :: "GenerateContentResponse \<Rightarrow> Part list" where
  "response_parts r =
     (case response_candidates r of
        None \<Rightarrow> []
      | Some [] \<Rightarrow> []
      | Some (c # _) \<Rightarrow>
          (case candidate_content c of
             None \<Rightarrow> []
           | Some ct \<Rightarrow> (case content_parts ct of None \<Rightarrow> [] | Some ps \<Rightarrow> ps)))"

text \<open>
  The loop that returns at the first part with \<open>inlineData\<close>; the template literal renders
  a missing \<open>data\<close> as \<open>undefined\<close>.
\<close>

fun first_inline :: "Part list \<Rightarrow> jsstring option" where
  "first_inline [] = None"
| "first_inline (p # ps) =
     (case part_inlineData p of
        Some b \<Rightarrow> Some (data_uri (case blob_data b of None \<Rightarrow> ascii ''undefined'' | Some d \<Rightarrow> d))
      | None \<Rightarrow> first_inline ps)"

text \<open>\<open>Error.prototype.toString\<close>, and the text \<open>error?.message || error?.toString() || ""\<close>.\<close>

definition Error_toString :: "thrown \<Rightarrow> jsstring" where
  "Error_toString e =
     (if err_name e = [] then err_message e
      else if err_message e = [] then err_name e
      else err_name e @ ascii '': '' @ err_message e)"

definition error_text :: "thrown \<Rightarrow> jsstring" where
  "error_text e =
     (if err_message e \<noteq> [] then err_message e
      else if Error_toString e \<noteq> [] then Error_toString e
      else [])"

text \<open>The test of line 422.\<close>

definition fallback_eligible :: "jsstring \<Rightarrow> bool" where
  "fallback_eligible errorMsg \<longleftrightarrow>
     str_includes errorMsg (ascii ''permission'') \<or> str_includes errorMsg (ascii ''403'')
     \<or> str_includes errorMsg (ascii ''not found'')"

text \<open>The body of the first \<open>try\<close> of the SDK branch (lines 399 to 414).\<close>

definition primary_try :: "image_world \<Rightarrow> thrown + jsstring" where
  "primary_try W =
     (case sdk_generate W primary_model of
        Inl e \<Rightarrow> Inl e
      | Inr response \<Rightarrow>
          (case first_inline (response_parts response) of
             Some url \<Rightarrow> Inr url
           | None \<Rightarrow> Inl (new_Error (ascii ''No image data found in response''))))"

definition generateFinalSlideImage ::
  "platform \<Rightarrow> image_world \<Rightarrow> Provider \<Rightarrow> api_call list \<times> (thrown + jsstring)" where
  "generateFinalSlideImage P W provider =
     (if provider = Zenmux then ([Fetch zenmux_image_url], zenmux_image_try P (fetch_image W))
      else
        (case image_sdk_new W of
           Some e \<Rightarrow> ([], Inl e)
         | None \<Rightarrow>
            (case primary_try W of
               Inr url \<Rightarrow> ([Generate primary_model], Inr url)
             | Inl error \<Rightarrow>
                 if fallback_eligible (error_text error) then
                   (case sdk_generate W fallback_model of
                      Inl fallbackError \<Rightarrow>
                        ([Generate primary_model, Generate fallback_model], Inl fallbackError)
                    | Inr fallbackResponse \<Rightarrow>
                        (case first_inline (response_parts fallbackResponse) of
                           Some url \<Rightarrow>
                             ([Generate primary_model, Generate fallback_model], Inr url)
                         | None \<Rightarrow>
                             ([Generate primary_model, Generate fallback_model], Inl error)))
                 else ([Generate primary_model], Inl error))))"

section \<open>The batch run of the preview component\<close>

text \<open>The typed plan of \<open>types.ts\<close>, as the component receives it.\<close>

record SlideData =
  slide_id :: jsstring
  slide_title :: jsstring
  slide_bullets :: "jsstring list"
  slide_visualNote :: jsstring
  slide_selectedImageIds :: "jsstring list option"

record PresentationPlan =
  plan_topic :: jsstring
  plan_style :: "jsstring option"
  plan_requirements :: "jsstring option"
  plan_slides :: "SlideData list"

text \<open>
  The React state of the component that \<open>startGeneration\<close> reads and writes. A slot of
  \<open>generatedImages\<close> is \<open>null\<close> (\<open>None\<close>) or a data URI.
\<close>

record preview_state =
  generatedImages :: "jsstring option list"
  isGenerating :: bool
  progressIndex :: nat
  hasApiKey :: bool

text \<open>
  \<open>results[i]\<close> reads \<open>undefined\<close> beyond the end of the array, and \<open>results[i] = v\<close> there
  extends the array. \<open>if (results[i]) continue\<close> tests the slot for truthiness.
\<close>

definition slot :: "jsstring option list \<Rightarrow> nat \<Rightarrow> jsstring option" where
  "slot results i = (if i < length results then results ! i else None)"

definition rendered :: "jsstring option list \<Rightarrow> nat \<Rightarrow> bool" where
  "rendered results i = (case slot results i of None \<Rightarrow> False | Some url \<Rightarrow> url \<noteq> [])"

definition set_slot :: "jsstring option list \<Rightarrow> nat \<Rightarrow> jsstring \<Rightarrow> jsstring option list" where
  "set_slot results i url =
     (if i < length results then results[i := Some url]
      else results @ replicate (i - length results) None @ [Some url])"

text \<open>The test of lines 114 to 119.\<close>

definition abort_marker :: "jsstring \<Rightarrow> bool" where
  "abort_marker errorMsg \<longleftrightarrow>
     str_includes errorMsg (ascii ''permission'') \<or> str_includes errorMsg (ascii ''403'')
     \<or> str_includes errorMsg (ascii ''The caller does not have permission'')
     \<or> str_includes errorMsg (ascii ''quota'')"

text \<open>
  A run in progress: the component state, the local array \<open>results\<close>, the slide indices
  for which \<open>generateFinalSlideImage\<close> has been invoked so far (in order), and whether the
  notice of the abort has been shown.
\<close>

record run =
  state :: preview_state
  results :: "jsstring option list"
  attempted :: "nat list"
  alerted :: bool

text \<open>
  The loop of lines 73 to 131 over the remaining indices. \<open>worlds i\<close> is the outside world
  of the call for slide \<open>i\<close>. The \<open>return\<close> of the abort leaves the loop and the function.
\<close>

fun generation_loop ::
  "platform \<Rightarrow> (nat \<Rightarrow> image_world) \<Rightarrow> Provider \<Rightarrow> nat list \<Rightarrow> run \<Rightarrow> run" where
  "generation_loop P worlds provider [] r =
     r\<lparr>state := (state r)\<lparr>isGenerating := False\<rparr>\<rparr>"
| "generation_loop P worlds provider (i # rest) r =
     (if rendered (results r) i then generation_loop P worlds provider rest r
      else
        (let r1 = r\<lparr>state := (state r)\<lparr>progressIndex := i + 1\<rparr>, attempted := attempted r @ [i]\<rparr>
         in case snd (generateFinalSlideImage P (worlds i) provider) of
              Inr imageUrl \<Rightarrow>
                (let results' = set_slot (results r1) i imageUrl
                 in generation_loop P worlds provider rest
                      (r1\<lparr>results := results',
                         state := (state r1)\<lparr>generatedImages := results'\<rparr>\<rparr>))
            | Inl error \<Rightarrow>
                if abort_marker (error_text error)
                then r1\<lparr>state := (state r1)\<lparr>isGenerating := False, hasApiKey := False\<rparr>,
                        alerted := True\<rparr>
                else generation_loop P worlds provider rest r1))"

definition startGeneration ::
  "platform \<Rightarrow> (nat \<Rightarrow> image_world) \<Rightarrow> Provider \<Rightarrow> PresentationPlan \<Rightarrow> preview_state \<Rightarrow> run" where
  "startGeneration P worlds provider plan s =
     (if \<not> hasApiKey s
      then \<lparr>state = s, results = generatedImages s, attempted = [], alerted = False\<rparr>
      else generation_loop P worlds provider [0 ..< length (plan_slides plan)]
             \<lparr>state = s\<lparr>isGenerating := True, progressIndex := 0\<rparr>,
              results = generatedImages s, attempted = [], alerted = False\<rparr>)"

text \<open>How the call for slide \<open>i\<close> settles, and whether it fails with a marker of the abort.\<close>

definition render_outcome ::
  "platform \<Rightarrow> (nat \<Rightarrow> image_world) \<Rightarrow> Provider \<Rightarrow> nat \<Rightarrow> thrown + jsstring" where
  "render_outcome P worlds provider i = snd (generateFinalSlideImage P (worlds i) provider)"

definition aborting :: "platform \<Rightarrow> (nat \<Rightarrow> image_world) \<Rightarrow> Provider \<Rightarrow> nat \<Rightarrow> bool" where
  "aborting P worlds provider i =
     (case render_outcome P worlds provider i of
        Inl error \<Rightarrow> abort_marker (error_text error)
      | Inr imageUrl \<Rightarrow> False)"

definition slot_follows ::
  "thrown + jsstring \<Rightarrow> jsstring option \<Rightarrow> jsstring option \<Rightarrow> bool" where
  "slot_follows outcome new old =
     (case outcome of Inr url \<Rightarrow> new = Some url | Inl e \<Rightarrow> new = old)"

definition unrendered :: "jsstring option list \<Rightarrow> nat list \<Rightarrow> nat list" where
  "unrendered rs is = filter (\<lambda>i. \<not> rendered rs i) is"

section \<open>The eligibility test as the specification words it\<close>

text \<open>
  Section 4.2 of the specification describes the test for the secondary model as a
  case-insensitive substring match against \<open>permission\<close>, \<open>403\<close> and \<open>not found\<close>. This is
  that reading, to be compared with \<open>fallback_eligible\<close>, which is the test of the code.
\<close>

definition to_lower :: "16 word \<Rightarrow> 16 word" where
  "to_lower c = (if 0x41 \<le> c \<and> c \<le> 0x5A then c + 0x20 else c)"

definition includes_ignoring_case :: "jsstring \<Rightarrow> jsstring \<Rightarrow> bool" where
  "includes_ignoring_case s t = str_includes (map to_lower s) (map to_lower t)"

definition spec_fallback_eligible :: "jsstring \<Rightarrow> bool" where
  "spec_fallback_eligible errorMsg \<longleftrightarrow>
     includes_ignoring_case errorMsg (ascii ''permission'')
     \<or> includes_ignoring_case errorMsg (ascii ''403'')
     \<or> includes_ignoring_case errorMsg (ascii ''not found'')"

section \<open>Notions for the proofs about JSON.parse\<close>

text \<open>
  Outside a string: between tokens, inside a number, or inside a literal name whose
  remaining letters are letters of \<open>true\<close>, \<open>false\<close> or \<open>null\<close>.
\<close>

definition name_letter :: "16 word \<Rightarrow> bool" where
  "name_letter c \<longleftrightarrow> 0x61 \<le> c \<and> c \<le> 0x7A \<and> c \<noteq> 0x69"

fun structural :: "lex_mode \<Rightarrow> bool" where
  "structural Outside = True"
| "structural (InLiteral tok rest) =
     ((tok = TTrue \<or> tok = TFalse \<or> tok = TNull) \<and> list_all name_letter rest)"
| "structural (InNumber acc) = True"
| "structural m = False"

definition plain_strings :: "token list \<Rightarrow> bool" where
  "plain_strings ts \<longleftrightarrow> (\<forall>s. TString s \<in> set ts \<longrightarrow> 0x69 \<notin> set s)"

text \<open>
  Two runs over the same text, one started inside a string, the other outside: as long
  as neither fails, each is inside a string exactly where the other is not, and every
  string that the second completes consists of code units that the first accepted
  outside a string, so it has no letter \<open>i\<close>.
\<close>

definition opposite :: "token list \<times> lex_mode \<Rightarrow> token list \<times> lex_mode \<Rightarrow> bool" where
  "opposite outer inner \<longleftrightarrow>
     plain_strings (fst inner) \<and>
     ((\<exists>acc. snd outer = InString acc) \<and> structural (snd inner)
      \<or> structural (snd outer) \<and> (\<exists>acc. snd inner = InString acc \<and> 0x69 \<notin> set acc))"

text \<open>The modes a run from the start can reach.\<close>

fun sane :: "lex_mode \<Rightarrow> bool" where
  "sane (InLiteral tok rest) = structural (InLiteral tok rest)"
| "sane m = True"

fun top_keys :: "jsval \<Rightarrow> jsstring set" where
  "top_keys (Obj ps) = fst ` set ps"
| "top_keys (Arr xs ps) = fst ` set ps"
| "top_keys v = {}"

fun frame_keys :: "frame \<Rightarrow> jsstring set" where
  "frame_keys (FArray xs) = {}"
| "frame_keys (FObject ms k) = fst ` set ms \<union> set_option k"

definition keys_within :: "jsstring set \<Rightarrow> frame list \<times> expect \<Rightarrow> bool" where
  "keys_within S st \<longleftrightarrow>
     (\<forall>f \<in> set (fst st). frame_keys f \<subseteq> S) \<and>
     (\<forall>v. snd st = Finished v \<longrightarrow> top_keys v \<subseteq> S)"

section \<open>Concrete inputs\<close>

text \<open>
  An engine for the concrete calls below: numbers are not looked at, objects print as
  \<open>[object Object]\<close>, and the errors carry the place as their message.
\<close>

definition sample_engine :: platform where
  "sample_engine =
     \<lparr>number_value = (\<lambda>n. Finite 1),
      SyntaxError = (\<lambda>s. ErrorObj (ascii ''SyntaxError'') (ascii ''Unexpected token'')),
      ToString = (\<lambda>v. Inr (ascii ''[object Object]'')),
      TypeError = (\<lambda>site. ErrorObj (ascii ''TypeError'') (ascii site))\<rparr>"

text \<open>
  The gateway answers the plan request with HTTP 500, or with a given content: a one-slide
  plan, or a plan whose topic is three backticks.
\<close>

definition gateway_500 :: plan_world where
  "gateway_500 = \<lparr>fetch_chat = Inr (Response False (Inr (Obj []))), sdk_new = None,
                   sdk_plan = Inr None\<rparr>"

definition gateway_answers :: "jsstring \<Rightarrow> plan_world" where
  "gateway_answers content =
     \<lparr>fetch_chat = Inr (Response True (Inr (Obj
        [(ascii ''choices'', Arr [Obj [(ascii ''message'', Obj
           [(ascii ''content'', Str content)])]] [])]))),
      sdk_new = None, sdk_plan = Inr None\<rparr>"

definition sample_plan_text :: jsstring where
  \<open>sample_plan_text = ascii ''{"topic":"T","slides":[{"id":"a"}]}''\<close>

definition backtick_plan_text :: jsstring where
  \<open>backtick_plan_text = ascii ''{"topic":"```","slides":[]}''\<close>

definition gateway_plan :: plan_world where
  "gateway_plan = gateway_answers sample_plan_text"

text \<open>The SDK answers with one image, or rejects every model with a given message.\<close>

definition image_response :: GenerateContentResponse where
  "image_response = GenerateContentResponse (Some [Candidate (Some (Content (Some
     [Part (Some (Blob (Some (ascii ''AAAA''))))])))])"

definition sdk_succeeds :: image_world where
  "sdk_succeeds = \<lparr>fetch_image = Inl (new_Error (ascii ''Failed to fetch'')),
                    image_sdk_new = None, sdk_generate = (\<lambda>m. Inr image_response)\<rparr>"

definition sdk_rejects :: "jsstring \<Rightarrow> image_world" where
  "sdk_rejects msg = \<lparr>fetch_image = Inl (new_Error (ascii ''Failed to fetch'')),
                       image_sdk_new = None, sdk_generate = (\<lambda>m. Inl (new_Error msg))\<rparr>"

text \<open>The gateway answers the image request with an error body and a status that is not ok.\<close>

definition gateway_forbidden :: image_world where
  "gateway_forbidden =
     \<lparr>fetch_image = Inr (Response False (Inr (Obj
        [(ascii ''error'', Obj [(ascii ''message'', Str (ascii ''403 permission denied''))])]))),
      image_sdk_new = None, sdk_generate = (\<lambda>m. Inr image_response)\<rparr>"

text \<open>
  The SDK rejects every model with a given thrown value; the gateway answers the image
  request with a status that is not ok and a given error message.
\<close>

definition sdk_throws :: "thrown \<Rightarrow> image_world" where
  "sdk_throws e = \<lparr>fetch_image = Inl (new_Error (ascii ''Failed to fetch'')),
                    image_sdk_new = None, sdk_generate = (\<lambda>m. Inl e)\<rparr>"

definition gateway_refuses :: "jsstring \<Rightarrow> image_world" where
  "gateway_refuses msg =
     \<lparr>fetch_image = Inr (Response False (Inr (Obj
        [(ascii ''error'', Obj [(ascii ''message'', Str msg)])]))),
      image_sdk_new = None, sdk_generate = (\<lambda>m. Inr image_response)\<rparr>"

text \<open>Three slides, nothing rendered yet; the call for the second slide fails.\<close>

definition three_slides :: PresentationPlan where
  "three_slides =
     \<lparr>plan_topic = ascii ''T'', plan_style = None, plan_requirements = None,
      plan_slides = map (\<lambda>n. \<lparr>slide_id = ascii n, slide_title = ascii n, slide_bullets = [],
                               slide_visualNote = [], slide_selectedImageIds = Some []\<rparr>)
                        [''A'', ''B'', ''C'']\<rparr>"

definition fresh_state :: preview_state where
  "fresh_state = \<lparr>generatedImages = [None, None, None], isGenerating = False,
                   progressIndex = 0, hasApiKey = True\<rparr>"

definition second_fails :: "jsstring \<Rightarrow> nat \<Rightarrow> image_world" where
  "second_fails msg i = (if i = 1 then sdk_rejects msg else sdk_succeeds)"

text \<open>The first slide is already rendered when the run starts.\<close>

definition resumed_state :: preview_state where
  "resumed_state = \<lparr>generatedImages = [Some (data_uri (ascii ''BBBB'')), None, None],
                     isGenerating = False, progressIndex = 1, hasApiKey = True\<rparr>"

section \<open>Basic facts\<close>

lemma ascii_Nil [simp]: "ascii [] = []"
  by (simp add: ascii_def)

lemma ascii_Cons [simp]: "ascii (c # cs) = of_char c # ascii cs"
  by (simp add: ascii_def)

lemma str_includes_Nil_left: "str_includes [] t \<longleftrightarrow> t = []"
  by simp

lemma includes_nonempty: "str_includes s t \<Longrightarrow> t \<noteq> [] \<Longrightarrow> s \<noteq> []"
  by (cases s) auto

lemma error_text_message: "err_message e \<noteq> [] \<Longrightarrow> error_text e = err_message e"
  by (simp add: error_text_def)

lemma lookup_put: "is_object v \<Longrightarrow> lookup (put v k x) k = x"
  by (cases v) (simp_all add: update_conv')

lemma lookup_put_other: "k' \<noteq> k \<Longrightarrow> lookup (put v k x) k' = lookup v k'"
  by (cases v) (simp_all add: update_conv')

lemma is_object_put: "is_object (put v k x) = is_object v"
  by (cases v) simp_all

lemma set_prop_Inr:
  "set_prop P site v k x = Inr v' \<longleftrightarrow> is_object v \<and> v' = put v k x"
  by (auto simp: set_prop_def)

section \<open>The plan generator never fails outward\<close>

lemma createFallbackPlan_Inr:
  assumes "slideCount < 2 ^ 32"
  shows "createFallbackPlan slideCount lang styleInput = Inr (Obj
          [(ascii ''topic'',
              Str (if lang = Zh
                   then [0x751F, 0x6210, 0x7684, 0x6F14, 0x793A, 0x6587, 0x7A3F]
                   else ascii ''Generated Presentation'')),
           (ascii ''style'', opt_str styleInput),
           (ascii ''slides'', Arr (map (fallback_slide lang) [0 ..< nat slideCount]) [])])"
  using assms by (simp add: createFallbackPlan_def Array_from_length_def)


lemma generateSlidePlan_cases:
  assumes "provider = Google \<longrightarrow> sdk_new W = None"
  shows "generateSlidePlan P W slideCount lang styleInput req provider =
     (if plan_failure P W styleInput req provider
      then createFallbackPlan slideCount lang styleInput
      else if provider = Zenmux then zenmux_plan_try P (fetch_chat W) styleInput req
      else google_plan_try P (sdk_plan W) styleInput req)"
  using assms
  by (cases provider) (auto simp: generateSlidePlan_def plan_failure_def split: sum.splits)

text \<open>The failures the claim names make the attempt throw.\<close>

lemma transport_failure:
  "fetch_chat W = Inl e \<Longrightarrow> plan_failure P W styleInput req Zenmux"
  "fetch_chat W = Inr (Response False body) \<Longrightarrow> plan_failure P W styleInput req Zenmux"
  "sdk_plan W = Inl e \<Longrightarrow> plan_failure P W styleInput req Google"
  by (simp_all add: plan_failure_def zenmux_plan_try_def google_plan_try_def split: sum.splits)

lemma parsing_failure:
  "fetch_chat W = Inr (Response True (Inl e)) \<Longrightarrow> plan_failure P W styleInput req Zenmux"
  "JSON_parse P str = Inl e \<Longrightarrow> isl (parse_plan P chk (Str str) styleInput req)"
  by (simp_all add: plan_failure_def zenmux_plan_try_def parse_plan_def to_string_def)

lemma schema_failure:
  assumes "JSON_parse P str = Inr parsed"
  shows "\<not> is_object parsed \<Longrightarrow> isl (parse_plan P chk (Str str) styleInput req)"
    and "is_object parsed \<Longrightarrow> \<forall>xs ps. lookup parsed (ascii ''slides'') \<noteq> Arr xs ps \<Longrightarrow>
           isl (parse_plan P chk (Str str) styleInput req)"
proof -
  show "\<not> is_object parsed \<Longrightarrow> isl (parse_plan P chk (Str str) styleInput req)"
    using assms by (simp add: parse_plan_def to_string_def set_prop_def)
next
  assume obj: "is_object parsed"
    and no: "\<forall>xs ps. lookup parsed (ascii ''slides'') \<noteq> Arr xs ps"
  let ?p2 = "put (put parsed (ascii ''style'') (opt_str styleInput))
                 (ascii ''requirements'') (opt_str req)"
  have ne: "ascii ''slides'' \<noteq> ascii ''style''" "ascii ''slides'' \<noteq> ascii ''requirements''"
    by simp_all
  have "lookup ?p2 (ascii ''slides'') = lookup parsed (ascii ''slides'')"
    using ne by (simp add: lookup_put_other del: ascii_Cons)
  with no have "isl (slides_forEach P (lookup ?p2 (ascii ''slides'')))"
    by (cases "lookup parsed (ascii ''slides'')") (simp_all add: slides_forEach_def del: ascii_Cons)
  then show "isl (parse_plan P chk (Str str) styleInput req)"
    using assms obj
    by (cases "slides_forEach P (lookup ?p2 (ascii ''slides''))")
       (simp_all add: parse_plan_def to_string_def set_prop_def is_object_put Let_def
          del: ascii_Cons)
qed



section \<open>What a returned plan carries\<close>

lemma clear_selected_Inr:
  "clear_selected P xs = Inr xs' \<Longrightarrow>
     length xs' = length xs \<and>
     (\<forall>s \<in> set xs'. lookup s (ascii ''selectedImageIds'') = Arr [] [])"
proof (induction xs arbitrary: xs')
  case Nil
  then show ?case by simp
next
  case (Cons s ss)
  then show ?case
    by (auto simp: set_prop_Inr lookup_put simp del: ascii_Cons split: sum.splits)
qed

lemma slides_forEach_Inr:
  "slides_forEach P slides = Inr slides' \<Longrightarrow>
     \<exists>xs ps. slides' = Arr xs ps \<and>
       (\<forall>s \<in> set xs. lookup s (ascii ''selectedImageIds'') = Arr [] [])"
  by (cases slides)
     (auto simp: slides_forEach_def simp del: ascii_Cons split: if_splits sum.splits
           dest: clear_selected_Inr)

lemma parse_plan_Inr_shape:
  assumes "parse_plan P chk content styleInput req = Inr plan"
  shows "\<exists>parsed slides'. is_object parsed \<and>
     slides_forEach P (lookup (put (put parsed (ascii ''style'') (opt_str styleInput))
                 (ascii ''requirements'') (opt_str req)) (ascii ''slides'')) = Inr slides' \<and>
     plan = put (put (put parsed (ascii ''style'') (opt_str styleInput))
                 (ascii ''requirements'') (opt_str req)) (ascii ''slides'') slides'"
proof -
  obtain str where t: "to_string P content = Inr str"
    using assms by (cases "to_string P content") (simp_all add: parse_plan_def)
  obtain parsed where p: "JSON_parse P str = Inr parsed"
    using assms t by (cases "JSON_parse P str") (simp_all add: parse_plan_def)
  have obj: "is_object parsed"
    using assms t p by (cases "is_object parsed") (simp_all add: parse_plan_def set_prop_def)
  let ?p2 = "put (put parsed (ascii ''style'') (opt_str styleInput))
                 (ascii ''requirements'') (opt_str req)"
  have "(if chk \<and> \<not> truthy (lookup ?p2 (ascii ''slides''))
         then Inl (new_Error (ascii ''Invalid JSON structure from Zenmux''))
         else (case slides_forEach P (lookup ?p2 (ascii ''slides'')) of
                 Inl e \<Rightarrow> Inl e
               | Inr slides' \<Rightarrow> Inr (put ?p2 (ascii ''slides'') slides'))) = Inr plan"
    using assms t p obj
    by (simp add: parse_plan_def set_prop_def is_object_put Let_def del: ascii_Cons)
  then obtain slides' where
    "slides_forEach P (lookup ?p2 (ascii ''slides'')) = Inr slides'"
    "plan = put ?p2 (ascii ''slides'') slides'"
    by (cases "slides_forEach P (lookup ?p2 (ascii ''slides''))")
       (auto simp del: ascii_Cons split: if_splits)
  with obj show ?thesis by blast
qed

lemma parse_plan_Inr:
  assumes "parse_plan P chk content styleInput req = Inr plan"
  shows "lookup plan (ascii ''style'') = opt_str styleInput"
    and "lookup plan (ascii ''requirements'') = opt_str req"
    and "\<exists>xs ps. lookup plan (ascii ''slides'') = Arr xs ps \<and>
           (\<forall>s \<in> set xs. lookup s (ascii ''selectedImageIds'') = Arr [] [])"
proof -
  from parse_plan_Inr_shape[OF assms] obtain parsed slides' where
    obj: "is_object parsed"
    and fe: "slides_forEach P (lookup (put (put parsed (ascii ''style'') (opt_str styleInput))
                 (ascii ''requirements'') (opt_str req)) (ascii ''slides'')) = Inr slides'"
    and plan: "plan = put (put (put parsed (ascii ''style'') (opt_str styleInput))
                 (ascii ''requirements'') (opt_str req)) (ascii ''slides'') slides'"
    by blast
  have ne1: "ascii ''style'' \<noteq> ascii ''slides''" "ascii ''style'' \<noteq> ascii ''requirements''"
    "ascii ''requirements'' \<noteq> ascii ''slides''"
    by simp_all
  show "lookup plan (ascii ''style'') = opt_str styleInput"
    unfolding plan using obj ne1
    by (simp add: lookup_put_other lookup_put is_object_put del: ascii_Cons)
  show "lookup plan (ascii ''requirements'') = opt_str req"
    unfolding plan using obj ne1
    by (simp add: lookup_put_other lookup_put is_object_put del: ascii_Cons)
  show "\<exists>xs ps. lookup plan (ascii ''slides'') = Arr xs ps \<and>
           (\<forall>s \<in> set xs. lookup s (ascii ''selectedImageIds'') = Arr [] [])"
    unfolding plan using obj slides_forEach_Inr[OF fe]
    by (simp add: lookup_put is_object_put del: ascii_Cons)
qed

lemma zenmux_plan_try_Inr:
  "zenmux_plan_try P fetched styleInput req = Inr plan \<Longrightarrow>
     \<exists>content. parse_plan P True content styleInput req = Inr plan"
  by (auto simp: zenmux_plan_try_def split: sum.splits if_splits)

lemma google_plan_try_Inr:
  "google_plan_try P generated styleInput req = Inr plan \<Longrightarrow>
     \<exists>content. parse_plan P False content styleInput req = Inr plan"
  by (auto simp: google_plan_try_def split: sum.splits if_splits)

lemma plan_success:
  assumes "generateSlidePlan P W slideCount lang styleInput req provider = Inr plan"
    and "\<not> plan_failure P W styleInput req provider"
  shows "\<exists>chk content. parse_plan P chk content styleInput req = Inr plan"
proof (cases provider)
  case Google
  with assms have "google_plan_try P (sdk_plan W) styleInput req = Inr plan"
    by (auto simp: generateSlidePlan_def plan_failure_def split: sum.splits option.splits)
  from google_plan_try_Inr[OF this] show ?thesis by blast
next
  case Zenmux
  with assms have "zenmux_plan_try P (fetch_chat W) styleInput req = Inr plan"
    by (auto simp: generateSlidePlan_def plan_failure_def split: sum.splits option.splits)
  from zenmux_plan_try_Inr[OF this] show ?thesis by blast
qed

lemma plan_fallback:
  assumes "generateSlidePlan P W slideCount lang styleInput req provider = Inr plan"
    and "plan_failure P W styleInput req provider"
  shows "createFallbackPlan slideCount lang styleInput = Inr plan"
  using assms
  by (cases provider)
     (auto simp: generateSlidePlan_def plan_failure_def split: sum.splits option.splits)

lemma createFallbackPlan_Inr_iff:
  "createFallbackPlan slideCount lang styleInput = Inr plan \<Longrightarrow>
     plan = Obj
          [(ascii ''topic'',
              Str (if lang = Zh
                   then [0x751F, 0x6210, 0x7684, 0x6F14, 0x793A, 0x6587, 0x7A3F]
                   else ascii ''Generated Presentation'')),
           (ascii ''style'', opt_str styleInput),
           (ascii ''slides'', Arr (map (fallback_slide lang) [0 ..< nat slideCount]) [])]"
  by (auto simp: createFallbackPlan_def Array_from_length_def simp del: ascii_Cons split: if_splits)

lemma lookup_fallback_slide:
  "lookup (fallback_slide lang i) (ascii ''selectedImageIds'') = Arr [] []"
  by (simp add: fallback_slide_def)

text \<open>
  C5. Whatever the model answered and whichever path produced the plan (the parsed answer
  of either provider, or the fallback), the plan that \<open>generateSlidePlan\<close> returns has an
  array of slides, and \<open>selectedImageIds\<close> of every slide is the empty array.
\<close>

theorem selectedImageIds_always_empty:
  assumes "generateSlidePlan P W slideCount lang styleInput req provider = Inr plan"
  shows "\<exists>slides ps. lookup plan (ascii ''slides'') = Arr slides ps \<and>
           (\<forall>s \<in> set slides. lookup s (ascii ''selectedImageIds'') = Arr [] [])"
proof (cases "plan_failure P W styleInput req provider")
  case True
  have plan: "plan = Obj
          [(ascii ''topic'',
              Str (if lang = Zh
                   then [0x751F, 0x6210, 0x7684, 0x6F14, 0x793A, 0x6587, 0x7A3F]
                   else ascii ''Generated Presentation'')),
           (ascii ''style'', opt_str styleInput),
           (ascii ''slides'', Arr (map (fallback_slide lang) [0 ..< nat slideCount]) [])]"
    by (rule createFallbackPlan_Inr_iff[OF plan_fallback[OF assms True]])
  have "lookup plan (ascii ''slides'') = Arr (map (fallback_slide lang) [0 ..< nat slideCount]) []"
    unfolding plan by simp
  moreover have "\<forall>s \<in> set (map (fallback_slide lang) [0 ..< nat slideCount]).
                  lookup s (ascii ''selectedImageIds'') = Arr [] []"
    by (simp add: lookup_fallback_slide del: ascii_Cons)
  ultimately show ?thesis by blast
next
  case False
  from plan_success[OF assms False] obtain chk content
    where "parse_plan P chk content styleInput req = Inr plan" by blast
  from parse_plan_Inr(3)[OF this] show ?thesis .
qed

theorem selectedImageIds_always_empty_witness:
  "\<exists>plan slides ps.
     generateSlidePlan sample_engine gateway_plan 1 En (Some (ascii ''Flat'')) None Zenmux = Inr plan \<and>
     lookup plan (ascii ''topic'') = Str (ascii ''T'') \<and>
     lookup plan (ascii ''slides'') = Arr slides ps \<and> slides \<noteq> [] \<and>
     (\<forall>s \<in> set slides. lookup s (ascii ''selectedImageIds'') = Arr [] [])"
proof -
  have e: "generateSlidePlan sample_engine gateway_plan 1 En (Some (ascii ''Flat'')) None Zenmux
     = Inr (Obj [(ascii ''topic'', Str (ascii ''T'')),
                 (ascii ''slides'', Arr [Obj [(ascii ''id'', Str (ascii ''a'')),
                                             (ascii ''selectedImageIds'', Arr [] [])]] []),
                 (ascii ''style'', Str (ascii ''Flat'')),
                 (ascii ''requirements'', Undefined)])"
    by code_simp
  from selectedImageIds_always_empty[OF e] show ?thesis
    unfolding e by auto
qed

text \<open>
  C9. On the fallback path the plan has no \<open>requirements\<close> property at all (reading it
  gives \<open>undefined\<close>, whatever the caller supplied), while its style is the style input; a
  plan of the success path carries the caller's requirements and style.
\<close>

theorem fallback_drops_requirements:
  assumes "generateSlidePlan P W slideCount lang styleInput req provider = Inr plan"
  shows "(plan_failure P W styleInput req provider \<longrightarrow>
            (\<exists>props. plan = Obj props \<and> map_of props (ascii ''requirements'') = None) \<and>
            lookup plan (ascii ''requirements'') = Undefined \<and>
            lookup plan (ascii ''style'') = opt_str styleInput) \<and>
         (\<not> plan_failure P W styleInput req provider \<longrightarrow>
            lookup plan (ascii ''requirements'') = opt_str req \<and>
            lookup plan (ascii ''style'') = opt_str styleInput)"
proof (cases "plan_failure P W styleInput req provider")
  case True
  from createFallbackPlan_Inr_iff[OF plan_fallback[OF assms True]]
  show ?thesis using True by simp
next
  case False
  from plan_success[OF assms False] obtain chk content
    where "parse_plan P chk content styleInput req = Inr plan" by blast
  from parse_plan_Inr(1,2)[OF this] show ?thesis using False by simp
qed

theorem fallback_drops_requirements_witness:
  "(\<exists>plan. generateSlidePlan sample_engine gateway_500 3 En (Some (ascii ''Flat''))
              (Some (ascii ''Short'')) Zenmux = Inr plan \<and>
      plan_failure sample_engine gateway_500 (Some (ascii ''Flat'')) (Some (ascii ''Short'')) Zenmux \<and>
      lookup plan (ascii ''requirements'') = Undefined \<and>
      lookup plan (ascii ''style'') = Str (ascii ''Flat'')) \<and>
   (\<exists>plan. generateSlidePlan sample_engine gateway_plan 1 En (Some (ascii ''Flat''))
              (Some (ascii ''Short'')) Zenmux = Inr plan \<and>
      \<not> plan_failure sample_engine gateway_plan (Some (ascii ''Flat'')) (Some (ascii ''Short'')) Zenmux \<and>
      lookup plan (ascii ''requirements'') = Str (ascii ''Short'') \<and>
      lookup plan (ascii ''style'') = Str (ascii ''Flat''))"
proof -
  have f1: "plan_failure sample_engine gateway_500 (Some (ascii ''Flat'')) (Some (ascii ''Short'')) Zenmux"
    by code_simp
  then have "generateSlidePlan sample_engine gateway_500 3 En (Some (ascii ''Flat''))
              (Some (ascii ''Short'')) Zenmux = createFallbackPlan 3 En (Some (ascii ''Flat''))"
    by (simp add: generateSlidePlan_cases)
  then obtain p1 where p1: "generateSlidePlan sample_engine gateway_500 3 En (Some (ascii ''Flat''))
              (Some (ascii ''Short'')) Zenmux = Inr p1"
    by (simp add: createFallbackPlan_Inr)
  have e2: "generateSlidePlan sample_engine gateway_plan 1 En (Some (ascii ''Flat''))
              (Some (ascii ''Short'')) Zenmux
     = Inr (Obj [(ascii ''topic'', Str (ascii ''T'')),
                 (ascii ''slides'', Arr [Obj [(ascii ''id'', Str (ascii ''a'')),
                                             (ascii ''selectedImageIds'', Arr [] [])]] []),
                 (ascii ''style'', Str (ascii ''Flat'')),
                 (ascii ''requirements'', Str (ascii ''Short''))])"
    by code_simp
  have f2: "\<not> plan_failure sample_engine gateway_plan (Some (ascii ''Flat'')) (Some (ascii ''Short'')) Zenmux"
    by code_simp
  from fallback_drops_requirements[OF p1] f1
  have "lookup p1 (ascii ''requirements'') = Undefined \<and>
        lookup p1 (ascii ''style'') = Str (ascii ''Flat'')" by simp
  moreover from fallback_drops_requirements[OF e2] f2
  have "lookup (Obj [(ascii ''topic'', Str (ascii ''T'')),
                 (ascii ''slides'', Arr [Obj [(ascii ''id'', Str (ascii ''a'')),
                                             (ascii ''selectedImageIds'', Arr [] [])]] []),
                 (ascii ''style'', Str (ascii ''Flat'')),
                 (ascii ''requirements'', Str (ascii ''Short''))]) (ascii ''requirements'')
          = Str (ascii ''Short'')" by simp
  ultimately show ?thesis using p1 f1 e2 f2 by simp
qed

section \<open>JSON.parse and the fence round trip\<close>

lemma name_letter_simps [simp]:
  "\<not> name_letter 0x22" "\<not> name_letter 0x5C" "\<not> name_letter 0x60" "\<not> name_letter 0x69"
  by (simp_all add: name_letter_def)

lemma name_letter_not_space: "name_letter c \<Longrightarrow> \<not> is_space c"
  unfolding name_letter_def is_space_def by (auto simp: word_le_nat_alt)

lemma lex_run_append:
  "lex_run st (a @ b) = (case lex_run st a of None \<Rightarrow> None | Some st' \<Rightarrow> lex_run st' b)"
  by (induction a arbitrary: st) (auto split: option.splits)

lemma outside_step_plain:
  assumes "outside_step ts c = Some (ts', m')" and "c \<noteq> 0x22"
  shows "structural m' \<and> c \<noteq> 0x60 \<and> c \<noteq> 0x69 \<and> c \<noteq> 0x5C \<and> (plain_strings ts \<longrightarrow> plain_strings ts')"
  using assms
  by (auto simp: outside_step_def plain_strings_def json_space_def is_digit_def name_letter_def
           split: if_splits)

lemma outside_step_quote:
  "outside_step ts 0x22 = Some (ts, InString [])"
  by (simp add: outside_step_def json_space_def)

text \<open>Outside a string, every code unit but the quote keeps the lexer outside a string.\<close>

lemma structural_step:
  assumes "structural m" and "lex_step (ts, m) c = Some (ts', m')" and "c \<noteq> 0x22"
  shows "structural m' \<and> c \<noteq> 0x60 \<and> c \<noteq> 0x69 \<and> c \<noteq> 0x5C \<and> (plain_strings ts \<longrightarrow> plain_strings ts')"
proof (cases m)
  case Outside
  with assms show ?thesis using outside_step_plain[of ts c ts' m'] by simp
next
  case (InLiteral tok rest)
  with assms obtain r rs where rest: "rest = r # rs" and c: "c = r"
    by (cases rest) (auto split: if_splits)
  with assms InLiteral have "m' = Outside \<and> ts' = tok # ts \<and> rs = [] \<or> m' = InLiteral tok rs \<and> ts' = ts"
    by (auto split: if_splits)
  moreover have "tok \<noteq> TString s" for s
    using assms(1) InLiteral by auto
  ultimately show ?thesis
    using assms(1) InLiteral rest c by (auto simp: plain_strings_def)
next
  case (InNumber acc)
  show ?thesis
  proof (cases "number_char c")
    case True
    with assms InNumber show ?thesis
      by (auto simp: number_char_def is_digit_def)
  next
    case False
    with assms InNumber have "outside_step (TNumber (rev acc) # ts) c = Some (ts', m')"
      by (simp split: if_splits)
    from outside_step_plain[OF this assms(3)] show ?thesis
      by (auto simp: plain_strings_def)
  qed
qed (use assms in simp_all)

lemma structural_quote:
  assumes "structural m" and "lex_step (ts, m) 0x22 = Some (ts', m')"
  shows "m' = InString [] \<and> (plain_strings ts \<longrightarrow> plain_strings ts')"
proof (cases m)
  case Outside
  with assms show ?thesis by (simp add: outside_step_quote)
next
  case (InLiteral tok rest)
  with assms show ?thesis by (cases rest) (auto split: if_splits)
next
  case (InNumber acc)
  with assms show ?thesis
    by (auto simp: number_char_def is_digit_def outside_step_quote plain_strings_def
             split: if_splits)
qed (use assms in simp_all)

lemma opposite_step:
  assumes "opposite outer inner"
    and "lex_step outer c = Some outer'" and "lex_step inner c = Some inner'"
  shows "opposite outer' inner'"
proof -
  obtain tx mx where outer: "outer = (tx, mx)" by (cases outer)
  obtain ts ms where inner: "inner = (ts, ms)" by (cases inner)
  obtain tx' mx' where outer': "outer' = (tx', mx')" by (cases outer')
  obtain ts' ms' where inner': "inner' = (ts', ms')" by (cases inner')
  from assms(1) have plain: "plain_strings ts" by (simp add: opposite_def inner)
  from assms(1) consider
      (a) acc where "mx = InString acc" "structural ms"
    | (b) acc where "structural mx" "ms = InString acc" "0x69 \<notin> set acc"
    by (auto simp: opposite_def outer inner)
  then show ?thesis
  proof cases
    case a
    show ?thesis
    proof (cases "c = 0x22")
      case True
      from structural_quote[OF a(2)] assms(3) True plain
      have "ms' = InString []" "plain_strings ts'" by (simp_all add: inner inner')
      moreover from assms(2) True a(1) have "mx' = Outside" by (simp add: outer outer')
      ultimately show ?thesis by (simp add: opposite_def outer' inner')
    next
      case False
      from structural_step[OF a(2) _ False] assms(3) plain
      have s: "structural ms'" "c \<noteq> 0x5C" "plain_strings ts'"
        by (simp_all add: inner inner')
      from assms(2) a(1) False s(2) have "\<exists>acc'. mx' = InString acc'"
        by (auto simp: outer outer' split: if_splits)
      with s show ?thesis by (simp add: opposite_def outer' inner')
    qed
  next
    case b
    show ?thesis
    proof (cases "c = 0x22")
      case True
      from structural_quote[OF b(1)] assms(2) True
      have "mx' = InString []" by (simp add: outer outer')
      moreover from assms(3) True b(2,3) plain have "ms' = Outside" "plain_strings ts'"
        by (auto simp: inner inner' plain_strings_def)
      ultimately show ?thesis by (simp add: opposite_def outer' inner')
    next
      case False
      from structural_step[OF b(1) _ False] assms(2)
      have s: "structural mx'" "c \<noteq> 0x69" "c \<noteq> 0x5C"
        by (simp_all add: outer outer')
      from assms(3) b(2,3) False s(2,3) plain
      have "\<exists>acc'. ms' = InString acc' \<and> 0x69 \<notin> set acc'" "plain_strings ts'"
        by (auto simp: inner inner' split: if_splits)
      with s(1) show ?thesis by (simp add: opposite_def outer' inner')
    qed
  qed
qed

lemma opposite_run:
  assumes "opposite outer inner"
    and "lex_run outer cs = Some outer'" and "lex_run inner cs = Some inner'"
  shows "opposite outer' inner'"
  using assms
proof (induction cs arbitrary: outer inner)
  case Nil
  then show ?case by simp
next
  case (Cons c cs)
  from Cons.prems(2) obtain o1 where o1: "lex_step outer c = Some o1" "lex_run o1 cs = Some outer'"
    by (auto split: option.splits)
  from Cons.prems(3) obtain i1 where i1: "lex_step inner c = Some i1" "lex_run i1 cs = Some inner'"
    by (auto split: option.splits)
  from opposite_step[OF Cons.prems(1) o1(1) i1(1)] have "opposite o1 i1" .
  from Cons.IH[OF this o1(2) i1(2)] show ?case .
qed

lemma lex_end_tokens:
  assumes "lex_end (ts, m) = Some toks"
  shows "structural m \<and> (\<forall>s. TString s \<in> set toks \<longrightarrow> TString s \<in> set ts)"
  using assms by (cases m) (auto split: if_splits)

lemma sane_step:
  assumes "sane m" and "lex_step (ts, m) c = Some (ts', m')"
  shows "sane m'"
proof (cases "structural m")
  case True
  show ?thesis
  proof (cases "c = 0x22")
    case q: True
    from structural_quote[OF True, of ts ts' m'] assms(2) q have "m' = InString []" by simp
    then show ?thesis by simp
  next
    case False
    from structural_step[OF True assms(2) False] have "structural m'" by simp
    then show ?thesis by (cases m') simp_all
  qed
next
  case False
  with assms show ?thesis
    by (cases m) (auto split: if_splits option.splits)
qed

lemma sane_run:
  assumes "sane (snd st)" and "lex_run st cs = Some st'"
  shows "sane (snd st')"
  using assms
proof (induction cs arbitrary: st)
  case Nil
  then show ?case by simp
next
  case (Cons c cs)
  from Cons.prems(2) obtain s1 where s1: "lex_step st c = Some s1" "lex_run s1 cs = Some st'"
    by (auto split: option.splits)
  from sane_step[of "snd st" "fst st" c "fst s1" "snd s1"] Cons.prems(1) s1(1)
  have "sane (snd s1)" by simp
  from Cons.IH[OF this s1(2)] show ?case .
qed

text \<open>A backtick is only accepted inside a string.\<close>

lemma backtick_step:
  assumes "sane m" and "lex_step (ts, m) 0x60 = Some (ts', m')"
  shows "\<exists>acc. m' = InString acc"
proof (cases "structural m")
  case True
  from structural_step[OF True assms(2)] show ?thesis by simp
next
  case False
  with assms show ?thesis
    by (cases m) (auto simp: hex_digit_def split: if_splits option.splits)
qed

lemma not_space [simp]: "\<not> is_space 0x22" "\<not> is_space 0x5C" "\<not> is_space 0x60"
  by (simp_all add: is_space_def)

lemma string_step_plain:
  assumes "lex_step (ts, InString acc) c = Some st'" and "c \<noteq> 0x22" and "c \<noteq> 0x5C"
  shows "\<exists>acc'. st' = (ts, InString acc')"
  using assms by (auto split: if_splits)

lemma string_run_plain:
  assumes "lex_run (ts, InString acc) cs = Some st'"
    and "0x22 \<notin> set cs" and "0x5C \<notin> set cs"
  shows "\<exists>acc'. st' = (ts, InString acc')"
  using assms
proof (induction cs arbitrary: acc)
  case Nil
  then show ?case by auto
next
  case (Cons c cs)
  from Cons.prems(1) obtain s1 where s1: "lex_step (ts, InString acc) c = Some s1"
    "lex_run s1 cs = Some st'"
    by (auto split: option.splits)
  from string_step_plain[OF s1(1)] Cons.prems(2,3) obtain acc1 where "s1 = (ts, InString acc1)"
    by auto
  with Cons.IH[of acc1] s1(2) Cons.prems(2,3) show ?case by simp
qed

lemma spaces_no_quote:
  "list_all is_space ws \<Longrightarrow> 0x22 \<notin> set ws \<and> 0x5C \<notin> set ws \<and> 0x60 \<notin> set ws"
  by (induction ws) auto

lemma structural_run_spaces:
  assumes "structural (snd st)" and "lex_run st ws = Some st'" and "list_all is_space ws"
  shows "structural (snd st')"
  using assms
proof (induction ws arbitrary: st)
  case Nil
  then show ?case by simp
next
  case (Cons c cs)
  from Cons.prems(2) obtain s1 where s1: "lex_step st c = Some s1" "lex_run s1 cs = Some st'"
    by (auto split: option.splits)
  from Cons.prems(3) have "c \<noteq> 0x22" by auto
  from structural_step[of "snd st" "fst st" c "fst s1" "snd s1", OF Cons.prems(1) _ this] s1(1)
  have "structural (snd s1)" by simp
  from Cons.IH[OF this s1(2)] Cons.prems(3) show ?case by simp
qed

lemma space_not_digit: "is_space c \<Longrightarrow> \<not> is_digit c"
  unfolding is_space_def is_digit_def by (auto simp: word_le_nat_alt)

lemma outside_space:
  assumes "is_space c" and "outside_step ts c = Some st'"
  shows "st' = (ts, Outside)"
proof -
  have "\<not> is_digit c" using assms(1) by (rule space_not_digit)
  moreover have "c \<noteq> 0x7B" "c \<noteq> 0x7D" "c \<noteq> 0x5B" "c \<noteq> 0x5D" "c \<noteq> 0x3A" "c \<noteq> 0x2C"
    "c \<noteq> 0x22" "c \<noteq> 0x74" "c \<noteq> 0x66" "c \<noteq> 0x6E" "c \<noteq> 0x2D"
    using assms(1) by (auto simp: is_space_def)
  ultimately show ?thesis
    using assms(2) by (simp add: outside_step_def split: if_splits)
qed

lemma outside_run_spaces:
  assumes "lex_run (ts, Outside) ws = Some st'" and "list_all is_space ws"
  shows "st' = (ts, Outside)"
  using assms
proof (induction ws)
  case Nil
  then show ?case by simp
next
  case (Cons c cs)
  from Cons.prems(1) obtain s1 where s1: "lex_step (ts, Outside) c = Some s1"
    "lex_run s1 cs = Some st'"
    by (auto split: option.splits)
  from outside_space[of c ts s1] s1(1) Cons.prems(2) have "s1 = (ts, Outside)" by simp
  with Cons.IH s1(2) Cons.prems(2) show ?case by simp
qed

text \<open>White space after the end of a text does not change its tokens.\<close>

lemma space_step_end:
  assumes "is_space c" and "lex_step st c = Some st1" and "lex_end st1 = Some toks"
    and "sane (snd st)"
  shows "lex_end st = Some toks"
proof -
  obtain ts m where st: "st = (ts, m)" by (cases st)
  show ?thesis
  proof (cases m)
    case Outside
    with assms st outside_space[of c ts st1] show ?thesis by simp
  next
    case (InNumber acc)
    have "c \<noteq> 0x2B" "c \<noteq> 0x2D" "c \<noteq> 0x2E" "c \<noteq> 0x45" "c \<noteq> 0x65"
      using assms(1) by (auto simp: is_space_def)
    with space_not_digit[OF assms(1)] have nn: "\<not> number_char c"
      by (simp add: number_char_def)
    with assms(2) st InNumber have v: "valid_number (rev acc)"
      and "outside_step (TNumber (rev acc) # ts) c = Some st1"
      by (auto split: if_splits)
    with outside_space[OF assms(1)] have "st1 = (TNumber (rev acc) # ts, Outside)" by simp
    with assms(3) v st InNumber show ?thesis by simp
  next
    case (InString acc)
    have "c \<noteq> 0x22" "c \<noteq> 0x5C" using assms(1) by auto
    with assms(2) st InString string_step_plain[of ts acc c st1] obtain acc' where
      "st1 = (ts, InString acc')" by blast
    with assms(3) show ?thesis by simp
  next
    case (InLiteral tok rest)
    with assms st show ?thesis
      by (cases rest) (auto dest: name_letter_not_space split: if_splits)
  next
    case (InEscape acc)
    with assms st show ?thesis
      by (auto simp: is_space_def split: if_splits)
  next
    case (InUnicode acc hs)
    with assms st show ?thesis
      by (auto simp: is_space_def hex_digit_def split: if_splits option.splits)
  qed
qed

lemma spaces_run_end:
  assumes "list_all is_space ws" and "lex_run st ws = Some st2" and "lex_end st2 = Some toks"
    and "sane (snd st)"
  shows "lex_end st = Some toks"
  using assms
proof (induction ws arbitrary: st)
  case Nil
  then show ?case by simp
next
  case (Cons c cs)
  from Cons.prems(2) obtain s1 where s1: "lex_step st c = Some s1" "lex_run s1 cs = Some st2"
    by (auto split: option.splits)
  from sane_step[of "snd st" "fst st" c "fst s1" "snd s1"] Cons.prems(4) s1(1)
  have "sane (snd s1)" by simp
  from Cons.IH[OF _ s1(2) Cons.prems(3) this] Cons.prems(1) have "lex_end s1 = Some toks" by simp
  from space_step_end[OF _ s1(1) this Cons.prems(4)] Cons.prems(1) show ?case by simp
qed

lemma trim_decomp:
  "\<exists>w1 w2. s = w1 @ trim s @ w2 \<and> list_all is_space w1 \<and> list_all is_space w2"
proof -
  let ?d = "dropWhile is_space s"
  have "s = takeWhile is_space s @ ?d" by simp
  moreover have "?d = rev (dropWhile is_space (rev ?d)) @ rev (takeWhile is_space (rev ?d))"
    by (metis rev_append rev_rev_ident takeWhile_dropWhile_id)
  moreover have "list_all is_space (takeWhile is_space s)"
    by (simp add: list_all_iff) (meson set_takeWhileD)
  moreover have "list_all is_space (rev (takeWhile is_space (rev ?d)))"
    by (simp add: list_all_iff) (meson set_takeWhileD)
  ultimately show ?thesis
    unfolding trim_def by metis
qed

lemma tokenize_run:
  "tokenize s = Some toks \<longleftrightarrow> (\<exists>st. lex_run ([], Outside) s = Some st \<and> lex_end st = Some toks)"
  by (auto simp: tokenize_def split: option.splits)

lemma lex_run_prefix:
  assumes "lex_run st (a @ b) = Some st'"
  obtains st1 where "lex_run st a = Some st1" "lex_run st1 b = Some st'"
  using assms by (auto simp: lex_run_append split: option.splits)

text \<open>Trimming a valid text does not change its tokens.\<close>

lemma tokenize_trim:
  assumes "tokenize s = Some toks"
  shows "tokenize (trim s) = Some toks"
proof -
  obtain w1 w2 where d: "s = w1 @ trim s @ w2" "list_all is_space w1" "list_all is_space w2"
    using trim_decomp by blast
  from assms obtain st where st: "lex_run ([], Outside) s = Some st" "lex_end st = Some toks"
    by (auto simp: tokenize_run)
  from st(1) d(1) have "lex_run ([], Outside) (w1 @ trim s @ w2) = Some st" by simp
  then obtain s1 where s1: "lex_run ([], Outside) w1 = Some s1" "lex_run s1 (trim s @ w2) = Some st"
    by (rule lex_run_prefix)
  from outside_run_spaces[OF s1(1) d(2)] have s1': "s1 = ([], Outside)" .
  from s1(2) obtain s2 where s2: "lex_run s1 (trim s) = Some s2" "lex_run s2 w2 = Some st"
    by (rule lex_run_prefix)
  have "sane (snd s2)" using sane_run[OF _ s2(1)] s1' by simp
  from spaces_run_end[OF d(3) s2(2) st(2) this] have "lex_end s2 = Some toks" .
  with s2(1) s1' show ?thesis by (auto simp: tokenize_run)
qed

text \<open>A valid text cut before a backtick, and trimmed, has no tokens.\<close>

lemma tokenize_cut:
  assumes "tokenize s = Some toks" and "s = w1 @ p @ w2 @ 0x60 # rest"
    and "list_all is_space w1" and "list_all is_space w2"
  shows "tokenize p = None"
proof (rule ccontr)
  assume "tokenize p \<noteq> None"
  then obtain sp tp where sp: "lex_run ([], Outside) p = Some sp" "lex_end sp = Some tp"
    by (auto simp: tokenize_run)
  from assms(1) obtain st where st: "lex_run ([], Outside) s = Some st"
    by (auto simp: tokenize_run)
  with assms(2) have "lex_run ([], Outside) (w1 @ p @ w2 @ [0x60] @ rest) = Some st" by simp
  then obtain s1 where s1: "lex_run ([], Outside) w1 = Some s1"
    "lex_run s1 (p @ w2 @ [0x60] @ rest) = Some st"
    by (rule lex_run_prefix)
  from outside_run_spaces[OF s1(1) assms(3)] have s1': "s1 = ([], Outside)" .
  from s1(2) obtain s2 where s2: "lex_run s1 p = Some s2" "lex_run s2 (w2 @ [0x60] @ rest) = Some st"
    by (rule lex_run_prefix)
  from s2(1) s1' sp(1) have "s2 = sp" by simp
  with sp(2) have str: "structural (snd s2)"
    using lex_end_tokens[of "fst sp" "snd sp" tp] by simp
  from s2(2) obtain s3 where s3: "lex_run s2 w2 = Some s3" "lex_run s3 ([0x60] @ rest) = Some st"
    by (rule lex_run_prefix)
  from structural_run_spaces[OF str s3(1) assms(4)] have str3: "structural (snd s3)" .
  from s3(2) obtain s4 where "lex_step s3 0x60 = Some s4"
    by (auto split: option.splits)
  with structural_step[of "snd s3" "fst s3" "0x60" "fst s4" "snd s4"] str3
  show False by simp
qed

text \<open>
  A stretch of a valid text that starts inside a string of that text, trimmed: if it
  has tokens at all, none of its strings contains the letter \<open>i\<close>.
\<close>

lemma tokenize_inside:
  assumes "tokenize s = Some toks" and "s = pre @ w1 @ p @ rest"
    and "lex_run ([], Outside) pre = Some (tx, InString acc)"
    and "list_all is_space w1"
    and "tokenize p = Some tp"
  shows "plain_strings tp"
proof -
  from assms(1) obtain st where st: "lex_run ([], Outside) s = Some st"
    by (auto simp: tokenize_run)
  with assms(2) have "lex_run ([], Outside) (pre @ w1 @ p @ rest) = Some st" by simp
  then obtain s1 where s1: "lex_run ([], Outside) pre = Some s1"
    "lex_run s1 (w1 @ p @ rest) = Some st"
    by (rule lex_run_prefix)
  with assms(3) have s1': "s1 = (tx, InString acc)" by simp
  from s1(2) obtain s2 where s2: "lex_run s1 w1 = Some s2" "lex_run s2 (p @ rest) = Some st"
    by (rule lex_run_prefix)
  from string_run_plain[of tx acc w1 s2] s2(1) s1' spaces_no_quote[OF assms(4)]
  obtain acc2 where s2': "s2 = (tx, InString acc2)" by auto
  from s2(2) obtain s3 where s3: "lex_run s2 p = Some s3"
    by (rule lex_run_prefix)
  from assms(5) obtain sp where sp: "lex_run ([], Outside) p = Some sp" "lex_end sp = Some tp"
    by (auto simp: tokenize_run)
  have "opposite s2 ([], Outside)"
    by (simp add: opposite_def s2' plain_strings_def)
  from opposite_run[OF this s3 sp(1)] have "plain_strings (fst sp)"
    by (simp add: opposite_def)
  with lex_end_tokens[of "fst sp" "snd sp" tp] sp(2) show ?thesis
    by (auto simp: plain_strings_def)
qed

text \<open>The text before the start of the stretch ends with a backtick, or with a fence tag.\<close>

lemma run_after_backtick:
  assumes "lex_run ([], Outside) (pre @ [0x60]) = Some st"
  shows "\<exists>tx acc. st = (tx, InString acc)"
proof -
  from assms obtain s1 where s1: "lex_run ([], Outside) pre = Some s1" "lex_run s1 [0x60] = Some st"
    by (rule lex_run_prefix)
  have "sane (snd s1)" using sane_run[OF _ s1(1)] by simp
  moreover from s1(2) have "lex_step (fst s1, snd s1) 0x60 = Some (fst st, snd st)"
    by (auto split: option.splits)
  ultimately obtain acc where "snd st = InString acc"
    using backtick_step by blast
  then show ?thesis by (cases st) auto
qed

lemma keys_update: "fst ` set (AList.update k v ms) = insert k (fst ` set ms)"
  by (induction ms) auto

lemma deliver_keys:
  assumes "\<forall>f \<in> set stack. frame_keys f \<subseteq> S" and "top_keys v \<subseteq> S"
    and "deliver stack v = Some st'"
  shows "keys_within S st'"
proof (cases stack)
  case Nil
  with assms show ?thesis by (auto simp: deliver_def keys_within_def)
next
  case (Cons f fs)
  with assms(1) have rest: "\<forall>f \<in> set fs. frame_keys f \<subseteq> S" and top: "frame_keys f \<subseteq> S"
    by simp_all
  show ?thesis
  proof (cases f)
    case (FArray xs)
    with assms(3) Cons have "st' = (FArray (v # xs) # fs, CommaOrClose)"
      by (simp add: deliver_def)
    with rest show ?thesis by (simp add: keys_within_def)
  next
    case (FObject ms k)
    with assms(3) Cons obtain key where k: "k = Some key"
      and st': "st' = (FObject (AList.update key v ms) None # fs, CommaOrClose)"
      by (cases k) (simp_all add: deliver_def)
    from top FObject k have "insert key (fst ` set ms) \<subseteq> S" by simp
    then have "frame_keys (FObject (AList.update key v ms) None) \<subseteq> S"
      by (simp add: keys_update)
    with rest st' show ?thesis by (simp add: keys_within_def)
  qed
qed

lemma parse_step_keys:
  assumes "keys_within S st" and "parse_step nv st tok = Some st'"
    and "\<forall>s. tok = TString s \<longrightarrow> s \<in> S"
  shows "keys_within S st'"
proof -
  have frames: "\<forall>f \<in> set (fst st). frame_keys f \<subseteq> S"
    using assms(1) by (simp add: keys_within_def)
  have val: "keys_within S st'" if "value_step nv (fst st) tok = Some st'"
  proof (cases tok)
    case TLBracket
    with that frames show ?thesis by (auto simp: value_step_def keys_within_def)
  next
    case TLBrace
    with that frames show ?thesis by (auto simp: value_step_def keys_within_def)
  next
    case (TString s)
    with that deliver_keys[OF frames, of "Str s" st'] show ?thesis by (simp add: value_step_def)
  next
    case (TNumber n)
    with that deliver_keys[OF frames, of "Num (nv n)" st'] show ?thesis by (simp add: value_step_def)
  next
    case TTrue
    with that deliver_keys[OF frames, of "Bool True" st'] show ?thesis by (simp add: value_step_def)
  next
    case TFalse
    with that deliver_keys[OF frames, of "Bool False" st'] show ?thesis by (simp add: value_step_def)
  next
    case TNull
    with that deliver_keys[OF frames, of Null st'] show ?thesis by (simp add: value_step_def)
  qed (use that in \<open>simp_all add: value_step_def\<close>)
  have key: "keys_within S st'" if "key_step (fst st) tok = Some st'"
  proof -
    from that obtain k ms fs where s: "tok = TString k" "fst st = FObject ms None # fs"
      "st' = (FObject ms (Some k) # fs, Colon)"
      by (auto simp: key_step_def split: token.splits list.splits frame.splits option.splits)
    with assms(3) have "k \<in> S" by simp
    with frames s show ?thesis by (fastforce simp: keys_within_def)
  qed
  have ca: "keys_within S st'" if "close_array (fst st) = Some st'"
  proof -
    from that obtain xs fs where s: "fst st = FArray xs # fs" "deliver fs (Arr (rev xs) []) = Some st'"
      by (auto simp: close_array_def split: list.splits frame.splits)
    from frames s(1) have "\<forall>f \<in> set fs. frame_keys f \<subseteq> S" by simp
    from deliver_keys[OF this _ s(2)] show ?thesis by simp
  qed
  have co: "keys_within S st'" if "close_object (fst st) = Some st'"
  proof -
    from that obtain ms fs where s: "fst st = FObject ms None # fs" "deliver fs (Obj ms) = Some st'"
      by (auto simp: close_object_def split: list.splits frame.splits option.splits)
    from frames s(1) have "\<forall>f \<in> set fs. frame_keys f \<subseteq> S" "top_keys (Obj ms) \<subseteq> S" by simp_all
    from deliver_keys[OF this s(2)] show ?thesis .
  qed
  show ?thesis
  proof (cases "snd st")
    case Value
    with assms(2) val show ?thesis by (simp add: parse_step_def)
  next
    case ValueOrClose
    with assms(2) val ca show ?thesis by (simp add: parse_step_def split: if_splits)
  next
    case KeyOrClose
    with assms(2) key co show ?thesis by (simp add: parse_step_def split: if_splits)
  next
    case Key
    with assms(2) key show ?thesis by (simp add: parse_step_def)
  next
    case Colon
    with assms(2) frames show ?thesis
      by (auto simp: parse_step_def keys_within_def split: if_splits)
  next
    case CommaOrClose
    with assms(2) consider
        "fst st' = fst st \<and> (snd st' = Value \<or> snd st' = Key)"
      | "close_array (fst st) = Some st'" | "close_object (fst st) = Some st'"
      by (auto simp: parse_step_def split: token.splits list.splits frame.splits)
    then show ?thesis
    proof cases
      case 1
      with frames show ?thesis by (auto simp: keys_within_def)
    next
      case 2
      then show ?thesis by (rule ca)
    next
      case 3
      then show ?thesis by (rule co)
    qed
  next
    case (Finished v)
    with assms(2) show ?thesis by (simp add: parse_step_def)
  qed
qed

lemma parse_run_keys:
  assumes "keys_within S st" and "parse_run nv st toks = Some st'"
    and "\<forall>s. TString s \<in> set toks \<longrightarrow> s \<in> S"
  shows "keys_within S st'"
  using assms
proof (induction toks arbitrary: st)
  case Nil
  then show ?case by simp
next
  case (Cons tok toks)
  from Cons.prems(2) obtain s1 where s1: "parse_step nv st tok = Some s1"
    "parse_run nv s1 toks = Some st'"
    by (auto split: option.splits)
  from parse_step_keys[OF Cons.prems(1) s1(1)] Cons.prems(3) have "keys_within S s1" by simp
  from Cons.IH[OF this s1(2)] Cons.prems(3) show ?case by simp
qed

text \<open>The property names of a parsed value are strings of its text.\<close>

lemma parse_tokens_keys:
  assumes "parse_tokens nv toks = Some v"
  shows "top_keys v \<subseteq> {s. TString s \<in> set toks}"
proof -
  from assms have run: "parse_run nv ([], Value) toks = Some ([], Finished v)"
    by (auto simp: parse_tokens_def split: option.splits list.splits expect.splits prod.splits)
  have "keys_within {s. TString s \<in> set toks} ([], Value)"
    by (simp add: keys_within_def)
  from parse_run_keys[OF this run] show ?thesis
    by (simp add: keys_within_def)
qed

lemma lookup_absent: "k \<notin> top_keys v \<Longrightarrow> lookup v k = Undefined"
proof (cases v)
  case (Obj ps)
  assume "k \<notin> top_keys v"
  with Obj have "map_of ps k = None" by (simp add: map_of_eq_None_iff)
  with Obj show ?thesis by simp
next
  case (Arr xs ps)
  assume "k \<notin> top_keys v"
  with Arr have "map_of ps k = None" by (simp add: map_of_eq_None_iff)
  with Arr show ?thesis by simp
qed simp_all

lemma plain_no_slides:
  assumes "tokenize p = Some tp" and "plain_strings tp" and "json_decode nv p = Some v"
  shows "lookup v (ascii ''slides'') = Undefined"
proof -
  from assms(1,3) have "parse_tokens nv tp = Some v" by (simp add: json_decode_def)
  from parse_tokens_keys[OF this] have "top_keys v \<subseteq> {s. TString s \<in> set tp}" .
  then have in_toks: "TString k \<in> set tp" if "k \<in> top_keys v" for k
    using that by auto
  have i: "0x69 \<in> set (ascii ''slides'')" by (simp add: ascii_def)
  have "ascii ''slides'' \<notin> top_keys v"
  proof
    assume "ascii ''slides'' \<in> top_keys v"
    then have "TString (ascii ''slides'') \<in> set tp" by (rule in_toks)
    from assms(2)[unfolded plain_strings_def, rule_format, OF this] i
    show False by (rule notE)
  qed
  then show ?thesis by (rule lookup_absent)
qed

lemma includes_append: "str_includes (a @ t @ b) t"
proof (induction a)
  case Nil
  have "prefix t (t @ b)" by simp
  then show ?case by (cases "t @ b") simp_all
next
  case (Cons c a)
  then show ?case by simp
qed

lemma includes_decomp: "str_includes s t \<Longrightarrow> \<exists>a b. s = a @ t @ b"
proof (induction s)
  case Nil
  then show ?case by simp
next
  case (Cons c cs)
  from Cons.prems have "prefix t (c # cs) \<or> str_includes cs t" by simp
  then show ?case
  proof
    assume "prefix t (c # cs)"
    then obtain b where "c # cs = t @ b" by (auto simp: prefix_def)
    then have "c # cs = [] @ t @ b" by simp
    then show ?thesis by blast
  next
    assume "str_includes cs t"
    from Cons.IH[OF this] obtain a b where "cs = a @ t @ b" by blast
    then have "c # cs = (c # a) @ t @ b" by simp
    then show ?thesis by blast
  qed
qed

lemma includes_longer: "str_includes s (t @ u) \<Longrightarrow> str_includes s t"
proof -
  assume "str_includes s (t @ u)"
  then obtain a b where "s = a @ (t @ u) @ b" using includes_decomp by blast
  then have "s = a @ t @ (u @ b)" by simp
  then show ?thesis using includes_append by metis
qed

lemma includes_inside: "str_includes s t \<Longrightarrow> str_includes (a @ s @ b) t"
proof -
  assume "str_includes s t"
  then obtain x y where "s = x @ t @ y" using includes_decomp by blast
  then have "a @ s @ b = (a @ x) @ t @ (y @ b)" by simp
  then show ?thesis using includes_append by metis
qed

lemma str_split_not_Nil: "str_split sep s \<noteq> []"
  by (induction sep s rule: str_split.induct) (auto split: list.splits)

lemma str_split_at_sep:
  assumes "sep \<noteq> []"
  shows "str_split sep (sep @ t) = [] # str_split sep t"
proof -
  obtain c cs where "sep @ t = c # cs" using assms by (cases "sep @ t") auto
  moreover have "prefix sep (sep @ t)" by simp
  ultimately show ?thesis using assms by (metis append_eq_conv_conj str_split.simps(2))
qed

text \<open>The first part ends where the separator first occurs, or is the whole text.\<close>

lemma str_split_first:
  assumes "sep \<noteq> []" and "str_split sep s = h # rest"
  shows "\<not> str_includes h sep \<and>
         (rest = [] \<and> s = h \<or> (\<exists>r. s = h @ sep @ r \<and> rest = str_split sep r))"
  using assms
proof (induction sep s arbitrary: h rest rule: str_split.induct)
  case (1 sep)
  then show ?case by auto
next
  case (2 sep c cs)
  show ?case
  proof (cases "prefix sep (c # cs)")
    case True
    then obtain r where r: "c # cs = sep @ r" by (auto simp: prefix_def)
    then have "drop (length sep) (c # cs) = r" by (metis append_eq_conv_conj)
    with 2(3,4) True have "h = []" "rest = str_split sep r" by simp_all
    with r 2(3) show ?thesis by (cases sep) auto
  next
    case False
    obtain p ps where pps: "str_split sep cs = p # ps"
      using str_split_not_Nil by (cases "str_split sep cs") auto
    with 2(3,4) False have h: "h = c # p" "rest = ps" by simp_all
    from 2(2)[OF _ 2(3) pps] False
    have ih: "\<not> str_includes p sep"
      "ps = [] \<and> cs = p \<or> (\<exists>r. cs = p @ sep @ r \<and> ps = str_split sep r)" by simp_all
    have "\<not> prefix sep (c # p)"
    proof
      assume "prefix sep (c # p)"
      moreover have "prefix (c # p) (c # cs)" using ih(2) by auto
      ultimately have "prefix sep (c # cs)" by (rule prefix_order.trans)
      with False show False by simp
    qed
    with ih(1) have "\<not> str_includes (c # p) sep" by simp
    with ih(2) h show ?thesis by auto
  qed
qed

lemma str_split_none:
  assumes "\<not> str_includes s sep"
  shows "str_split sep s = [s]"
  using assms
proof (induction sep s rule: str_split.induct)
  case (1 sep)
  then show ?case by simp
next
  case (2 sep c cs)
  from 2(3) have np: "\<not> prefix sep (c # cs)" and ni: "\<not> str_includes cs sep" by simp_all
  with 2(2) have "str_split sep cs = [cs]" by simp
  with np show ?case by simp
qed

lemma fence_not_Nil [simp]: "fence \<noteq> []" "fence_json \<noteq> []"
  by (simp_all add: fence_def fence_json_def)

lemma fence_json_eq: "fence_json = fence @ ascii ''json''"
  by (simp add: fence_def fence_json_def)

text \<open>A text without a fence, followed by a line feed and a fence.\<close>

lemma no_fence_prefix:
  assumes "\<not> str_includes (c # cs) fence"
  shows "\<not> prefix fence (c # cs @ 0xA # fence)"
proof
  assume p: "prefix fence (c # cs @ 0xA # fence)"
  from assms have np: "\<not> prefix fence (c # cs)" by simp
  show False
  proof (cases cs)
    case Nil
    with p show False by (simp add: fence_def)
  next
    case (Cons d ds)
    show False
    proof (cases ds)
      case Nil
      with p Cons show False by (simp add: fence_def)
    next
      case (Cons e es)
      with p np \<open>cs = d # ds\<close> show False by (simp add: fence_def)
    qed
  qed
qed

lemma split_closing_fence:
  assumes "\<not> str_includes s fence"
  shows "str_split fence (s @ 0xA # fence) = [s @ [0xA], []]"
  using assms
proof (induction s)
  case Nil
  show ?case by (simp add: fence_def)
next
  case (Cons c cs)
  from Cons.prems have "\<not> str_includes cs fence" by simp
  with Cons.IH have ih: "str_split fence (cs @ 0xA # fence) = [cs @ [0xA], []]" by simp
  from no_fence_prefix[OF Cons.prems] ih show ?case by simp
qed

lemma split_no_fence_json:
  assumes "\<not> str_includes s fence"
  shows "str_split fence_json (s @ 0xA # fence) = [s @ 0xA # fence]"
  using assms
proof (induction s)
  case Nil
  show ?case by (simp add: fence_def fence_json_def)
next
  case (Cons c cs)
  from Cons.prems have "\<not> str_includes cs fence" by simp
  with Cons.IH have ih: "str_split fence_json (cs @ 0xA # fence) = [cs @ 0xA # fence]" by simp
  have "\<not> prefix fence_json (c # cs @ 0xA # fence)"
  proof
    assume "prefix fence_json (c # cs @ 0xA # fence)"
    moreover have "prefix fence fence_json" by (simp add: fence_json_eq)
    ultimately have "prefix fence (c # cs @ 0xA # fence)" by (metis prefix_order.trans)
    with no_fence_prefix[OF Cons.prems] show False by simp
  qed
  with ih show ?case by simp
qed

lemma is_space_LF [simp]: "is_space 0xA"
  by (simp add: is_space_def)

lemma trim_LF_front: "trim (0xA # s) = trim s"
  by (simp add: trim_def)

lemma trim_LF_back: "trim (s @ [0xA]) = trim s"
proof (cases "\<forall>c \<in> set s. is_space c")
  case True
  then have d: "dropWhile is_space s = []" by (metis dropWhile_eq_Nil_conv)
  have "\<forall>c \<in> set (s @ [0xA]). is_space c" using True by simp
  then have e: "dropWhile is_space (s @ [0xA]) = []" by (metis dropWhile_eq_Nil_conv)
  show ?thesis unfolding trim_def d e ..
next
  case False
  then obtain x where "x \<in> set s" "\<not> is_space x" by blast
  then have "dropWhile is_space (s @ [0xA]) = dropWhile is_space s @ [0xA]"
    by (rule dropWhile_append1)
  then show ?thesis by (simp add: trim_def)
qed

lemma fence_not_prefix_LF: "\<not> prefix fence (0xA # s)"
  by (simp add: fence_def)

text \<open>Without a fence in the text, both sides parse the same string.\<close>

lemma clean_raw_plain:
  assumes "\<not> str_includes s fence"
  shows "clean_markdown P (Str s) = Inr (Str s)"
proof -
  from assms have "\<not> str_includes s fence_json"
    using includes_longer[of s fence "ascii ''json''"] by (auto simp: fence_json_eq simp del: ascii_Cons)
  with assms show ?thesis by (simp add: clean_markdown_def)
qed

lemma clean_fenced_plain:
  assumes "\<not> str_includes s fence"
  shows "clean_markdown P (Str (fenced s)) = Inr (Str (trim s))"
proof -
  let ?t = "(0xA # s) @ 0xA # fence"
  have nf: "\<not> str_includes (0xA # s) fence"
    using assms fence_not_prefix_LF by simp
  have inc: "str_includes (fenced s) fence_json"
    unfolding fenced_def using includes_append[of "[]" fence_json] by simp
  have "str_split fence_json (fenced s) = [] # str_split fence_json ?t"
    unfolding fenced_def using str_split_at_sep[of fence_json ?t] by simp
  also have "str_split fence_json ?t = [?t]"
    by (rule split_no_fence_json[OF nf])
  finally have s1: "nth_opt (str_split fence_json (fenced s)) 1 = Some ?t"
    by (simp add: nth_opt_def)
  have s2: "nth_opt (str_split fence ?t) 0 = Some ((0xA # s) @ [0xA])"
    by (simp only: split_closing_fence[OF nf]) (simp add: nth_opt_def)
  have "trim ((0xA # s) @ [0xA]) = trim s"
    by (simp only: trim_LF_back trim_LF_front)
  with s1 s2 have "between_fences P fence_json (fenced s) = Inr (trim s)"
    by (simp add: between_fences_def)
  with inc show ?thesis by (simp add: clean_markdown_def)
qed

lemma decode_trim:
  assumes "json_decode nv s = Some v"
  shows "json_decode nv (trim s) = Some v"
proof -
  from assms obtain toks where t: "tokenize s = Some toks" "parse_tokens nv toks = Some v"
    by (auto simp: json_decode_def split: option.splits)
  from tokenize_trim[OF t(1)] t(2) show ?thesis by (simp add: json_decode_def)
qed

lemma parse_plan_same_text:
  assumes "JSON_parse P s = JSON_parse P s'"
  shows "parse_plan P chk (Str s) styleInput req = parse_plan P chk (Str s') styleInput req"
  using assms by (simp add: parse_plan_def to_string_def)

lemma roundtrip_plain:
  assumes "json_decode (number_value P) s = Some v" and "\<not> str_includes s fence"
  shows "gateway_parse P (Str (fenced s)) styleInput req = gateway_parse P (Str s) styleInput req"
proof -
  from decode_trim[OF assms(1)] assms(1) have "JSON_parse P (trim s) = JSON_parse P s"
    by (simp add: JSON_parse_def)
  from parse_plan_same_text[OF this] show ?thesis
    by (simp add: gateway_parse_def clean_raw_plain[OF assms(2)] clean_fenced_plain[OF assms(2)])
qed

text \<open>A text the parser cannot use as a plan.\<close>

lemma parse_plan_no_slides:
  assumes "\<And>v. json_decode (number_value P) s = Some v \<Longrightarrow> lookup v (ascii ''slides'') = Undefined"
  shows "isl (parse_plan P True (Str s) styleInput req)"
proof (cases "json_decode (number_value P) s")
  case None
  then show ?thesis by (simp add: parse_plan_def to_string_def JSON_parse_def)
next
  case (Some v)
  then have u: "lookup v (ascii ''slides'') = Undefined" by (rule assms)
  show ?thesis
  proof (cases "is_object v")
    case False
    with Some show ?thesis
      by (simp add: parse_plan_def to_string_def JSON_parse_def set_prop_def)
  next
    case True
    have ne: "ascii ''slides'' \<noteq> ascii ''style''" "ascii ''slides'' \<noteq> ascii ''requirements''"
      by simp_all
    have "lookup (put (put v (ascii ''style'') (opt_str styleInput))
                 (ascii ''requirements'') (opt_str req)) (ascii ''slides'') = Undefined"
      using ne u by (simp add: lookup_put_other del: ascii_Cons)
    with Some True show ?thesis
      by (simp add: parse_plan_def to_string_def JSON_parse_def set_prop_def is_object_put
            Let_def del: ascii_Cons)
  qed
qed

lemma between_fences_Inr:
  assumes "between_fences P sep s = Inr body"
  obtains rest seg where "nth_opt (str_split sep s) 1 = Some rest"
    "nth_opt (str_split fence rest) 0 = Some seg" "body = trim seg"
  using assms by (auto simp: between_fences_def split: option.splits)

lemma hd_split_prefix:
  assumes "sep \<noteq> []" and "nth_opt (str_split sep s) 0 = Some h"
  shows "\<not> str_includes h sep \<and> (s = h \<or> (\<exists>r. s = h @ sep @ r))"
proof -
  from assms(2) obtain tl' where "str_split sep s = h # tl'"
    by (cases "str_split sep s") (auto simp: nth_opt_def split: if_splits)
  from str_split_first[OF assms(1) this] show ?thesis by auto
qed

lemma second_split:
  assumes "sep \<noteq> []" and "nth_opt (str_split sep s) 1 = Some rest"
  shows "\<exists>h r. s = h @ sep @ r \<and> nth_opt (str_split sep r) 0 = Some rest"
proof -
  from assms(2) obtain h tl' where sp: "str_split sep s = h # tl'" and tl': "tl' \<noteq> []"
    and rest: "rest = hd tl'"
    by (cases "str_split sep s") (auto simp: nth_opt_def hd_conv_nth split: if_splits)
  from str_split_first[OF assms(1) sp] tl' obtain r where "s = h @ sep @ r" "tl' = str_split sep r"
    by auto
  with rest tl' have "s = h @ sep @ r \<and> nth_opt (str_split sep r) 0 = Some rest"
    by (cases "str_split sep r") (simp_all add: nth_opt_def)
  then show ?thesis by blast
qed

text \<open>The state of the lexer after a fence, in a text that has tokens.\<close>

lemma after_fence:
  assumes "lex_run ([], Outside) (h @ sep @ r) = Some st" and "sep = fence \<or> sep = fence_json"
  shows "\<exists>tx acc. lex_run ([], Outside) (h @ sep) = Some (tx, InString acc)"
proof -
  from assms(1) have "lex_run ([], Outside) ((h @ sep) @ r) = Some st" by simp
  then obtain s1 where s1: "lex_run ([], Outside) (h @ sep) = Some s1"
    by (rule lex_run_prefix)
  from assms(2) show ?thesis
  proof
    assume f: "sep = fence"
    then have "h @ sep = (h @ [0x60, 0x60]) @ [0x60]" by (simp add: fence_def)
    with s1 run_after_backtick[of "h @ [0x60, 0x60]" s1] show ?thesis by auto
  next
    assume f: "sep = fence_json"
    then have "h @ sep = ((h @ [0x60, 0x60]) @ [0x60]) @ ascii ''json''"
      by (simp add: fence_json_def)
    with s1 obtain s0 where s0: "lex_run ([], Outside) ((h @ [0x60, 0x60]) @ [0x60]) = Some s0"
      "lex_run s0 (ascii ''json'') = Some s1"
      by (metis lex_run_prefix)
    from run_after_backtick[OF s0(1)] obtain tx acc where "s0 = (tx, InString acc)" by blast
    with string_run_plain[of tx acc "ascii ''json''" s1] s0(2) obtain acc' where
      "s1 = (tx, InString acc')" by auto
    with s1 show ?thesis by simp
  qed
qed

lemma between_inside:
  assumes "tokenize s = Some toks" and "sep = fence \<or> sep = fence_json"
    and "between_fences P sep s = Inr body"
  shows "isl (parse_plan P True (Str body) styleInput req)"
proof (rule parse_plan_no_slides)
  fix v assume dec: "json_decode (number_value P) body = Some v"
  then obtain tp where tp: "tokenize body = Some tp"
    by (auto simp: json_decode_def split: option.splits)
  have sep: "sep \<noteq> []" using assms(2) by (auto simp: fence_def fence_json_def)
  from assms(3) obtain rest seg where b: "nth_opt (str_split sep s) 1 = Some rest"
    "nth_opt (str_split fence rest) 0 = Some seg" "body = trim seg"
    by (rule between_fences_Inr)
  from second_split[OF sep b(1)] obtain h r where hr: "s = h @ sep @ r"
    "nth_opt (str_split sep r) 0 = Some rest" by blast
  from hd_split_prefix[OF sep hr(2)] obtain b1 where b1: "r = rest @ b1" by auto
  from hd_split_prefix[OF _ b(2)] obtain b2 where b2: "rest = seg @ b2" by auto
  obtain w1 w2 where w: "seg = w1 @ body @ w2" "list_all is_space w1"
    using trim_decomp[of seg] b(3) by auto
  from assms(1) obtain st where st: "lex_run ([], Outside) s = Some st"
    by (auto simp: tokenize_run)
  with hr(1) after_fence[OF _ assms(2), of h r st] obtain tx acc where
    pre: "lex_run ([], Outside) (h @ sep) = Some (tx, InString acc)" by auto
  have "s = (h @ sep) @ w1 @ body @ (w2 @ b2 @ b1)"
    using hr(1) b1 b2 w(1) by simp
  from tokenize_inside[OF assms(1) this pre w(2) tp] have "plain_strings tp" .
  from plain_no_slides[OF tp this dec] show "lookup v (ascii ''slides'') = Undefined" .
qed

text \<open>With a fence in the text, the parser fails on the raw text.\<close>

lemma raw_fails:
  assumes "tokenize s = Some toks" and "str_includes s fence"
  shows "isl (gateway_parse P (Str s) styleInput req)"
proof -
  let ?sep = "if str_includes s fence_json then fence_json else fence"
  have "gateway_parse P (Str s) styleInput req =
          (case between_fences P ?sep s of
             Inl e \<Rightarrow> Inl e
           | Inr body \<Rightarrow> parse_plan P True (Str body) styleInput req)"
    using assms(2) by (simp add: gateway_parse_def clean_markdown_def split: sum.splits)
  moreover have "isl (parse_plan P True (Str body) styleInput req)"
    if "between_fences P ?sep s = Inr body" for body
    by (rule between_inside[OF assms(1) _ that]) simp
  ultimately show ?thesis
    by (cases "between_fences P ?sep s") simp_all
qed

text \<open>With a fence in the text, the parser fails on the fenced text as well.\<close>

lemma fenced_cut:
  assumes "tokenize s = Some toks" and "str_includes s fence"
    and "between_fences P fence_json (fenced s) = Inr body"
  shows "tokenize body = None"
proof -
  let ?t = "0xA # s @ 0xA # fence"
  from assms(3) obtain rest seg where b: "nth_opt (str_split fence_json (fenced s)) 1 = Some rest"
    "nth_opt (str_split fence rest) 0 = Some seg" "body = trim seg"
    by (rule between_fences_Inr)
  have "str_split fence_json (fenced s) = [] # str_split fence_json ?t"
    unfolding fenced_def using str_split_at_sep[of fence_json ?t] by simp
  with b(1) have r0: "nth_opt (str_split fence_json ?t) 0 = Some rest"
    by (cases "str_split fence_json ?t") (auto simp: nth_opt_def)
  from hd_split_prefix[OF _ r0] have rest: "?t = rest \<or> (\<exists>r. ?t = rest @ fence_json @ r)" by simp
  from hd_split_prefix[OF _ b(2)] have seg: "\<not> str_includes seg fence"
    "rest = seg \<or> (\<exists>r. rest = seg @ fence @ r)" by simp_all
  have t_inc: "str_includes ?t fence"
    using includes_append[of "0xA # s @ [0xA]" fence "[]"] by simp
  have "\<exists>u. ?t = seg @ fence @ u"
  proof (cases "rest = seg")
    case True
    from rest show ?thesis
    proof
      assume "?t = rest"
      with True seg(1) t_inc show ?thesis by simp
    next
      assume "\<exists>r. ?t = rest @ fence_json @ r"
      then obtain r where "?t = seg @ fence @ (ascii ''json'' @ r)"
        using True by (auto simp: fence_json_eq simp del: ascii_Cons)
      then show ?thesis by blast
    qed
  next
    case False
    with seg(2) obtain r where r: "rest = seg @ fence @ r" by blast
    from rest show ?thesis
    proof
      assume "?t = rest"
      with r show ?thesis by metis
    next
      assume "\<exists>r. ?t = rest @ fence_json @ r"
      then obtain r' where "?t = seg @ fence @ (r @ fence_json @ r')" using r by auto
      then show ?thesis by blast
    qed
  qed
  then obtain u where u: "?t = seg @ 0x60 # u" by (auto simp: fence_def)
  have p1: "prefix seg ?t" using u by (metis prefixI)
  have p2: "prefix (0xA # s) ?t" by simp
  have "\<not> prefix (0xA # s) seg"
  proof
    assume "prefix (0xA # s) seg"
    then obtain z where "seg = [0xA] @ s @ z" by (auto simp: prefix_def)
    with includes_inside[OF assms(2), of "[0xA]" z] seg(1) show False by simp
  qed
  with prefix_same_cases[OF p1 p2] have "prefix seg (0xA # s)" by blast
  then obtain more where more: "0xA # s = seg @ more" by (auto simp: prefix_def)
  then have "0xA # s @ 0xA # fence = seg @ more @ 0xA # fence"
    by (metis append_Cons append_assoc)
  with u have "seg @ more @ 0xA # fence = seg @ 0x60 # u" by simp
  then have "more @ 0xA # fence = 0x60 # u" by simp
  moreover have "more \<noteq> []"
  proof
    assume "more = []"
    with more have "seg = [0xA] @ s @ []" by simp
    with includes_inside[OF assms(2), of "[0xA]" "[]"] seg(1) show False by simp
  qed
  ultimately obtain more' where more': "more = 0x60 # more'" by (cases more) auto
  from more more' obtain pre where pre: "seg = 0xA # pre" "s = pre @ 0x60 # more'"
    by (cases seg) auto
  have body: "body = trim pre" using b(3) pre(1) by (simp add: trim_LF_front)
  obtain w1 w2 where w: "pre = w1 @ body @ w2" "list_all is_space w1" "list_all is_space w2"
    using trim_decomp[of pre] body by auto
  have "s = w1 @ body @ w2 @ 0x60 # more'" using pre(2) w(1) by simp
  from tokenize_cut[OF assms(1) this w(2,3)] show ?thesis .
qed

lemma fenced_fails:
  assumes "tokenize s = Some toks" and "str_includes s fence"
  shows "isl (gateway_parse P (Str (fenced s)) styleInput req)"
proof -
  have inc: "str_includes (fenced s) fence_json"
    unfolding fenced_def using includes_append[of "[]" fence_json] by simp
  show ?thesis
  proof (cases "between_fences P fence_json (fenced s)")
    case (Inl e)
    with inc show ?thesis by (simp add: gateway_parse_def clean_markdown_def)
  next
    case (Inr body)
    from fenced_cut[OF assms Inr] have "json_decode (number_value P) body = None"
      by (simp add: json_decode_def)
    then have "isl (parse_plan P True (Str body) styleInput req)"
      by (intro parse_plan_no_slides) simp
    with inc Inr show ?thesis by (simp add: gateway_parse_def clean_markdown_def)
  qed
qed

lemma decode_not_empty: "json_decode nv [] = None"
  by (simp add: json_decode_def tokenize_def parse_tokens_def)

lemma zenmux_plan_try_content:
  assumes "fetch_chat W = Inr (Response True (Inr d))" and "choice_content P d = Inr (Str s)"
    and "s \<noteq> []"
  shows "zenmux_plan_try P (fetch_chat W) styleInput req = gateway_parse P (Str s) styleInput req"
  using assms by (simp add: zenmux_plan_try_def gateway_parse_def)

text \<open>
  C6. For every text that is valid JSON (a plan object in particular), a gateway answer
  whose content is that text wrapped in a \<open>json\<close> fenced block yields the same plan as an
  answer whose content is the text itself. Without three backticks in the text, both
  sides parse the same string. With them, the stripping cuts the text on both sides:
  the fenced side parses a piece that ends inside a string, the raw side a piece that
  begins inside one, neither piece is a plan, and both calls return the fallback plan.
\<close>

theorem fence_roundtrip:
  assumes valid: "json_decode (number_value P) s = Some J"
    and raw: "fetch_chat Wr = Inr (Response True (Inr dr))" "choice_content P dr = Inr (Str s)"
    and fen: "fetch_chat Wf = Inr (Response True (Inr df))"
             "choice_content P df = Inr (Str (fenced s))"
  shows "generateSlidePlan P Wf slideCount lang styleInput req Zenmux
           = generateSlidePlan P Wr slideCount lang styleInput req Zenmux"
proof -
  from valid have ne: "s \<noteq> []" using decode_not_empty by auto
  have nf: "fenced s \<noteq> []" by (simp add: fenced_def)
  from valid obtain toks where toks: "tokenize s = Some toks"
    by (auto simp: json_decode_def split: option.splits)
  have r: "zenmux_plan_try P (fetch_chat Wr) styleInput req = gateway_parse P (Str s) styleInput req"
    by (rule zenmux_plan_try_content[OF raw ne])
  have f: "zenmux_plan_try P (fetch_chat Wf) styleInput req
             = gateway_parse P (Str (fenced s)) styleInput req"
    by (rule zenmux_plan_try_content[OF fen nf])
  show ?thesis
  proof (cases "str_includes s fence")
    case False
    from roundtrip_plain[OF valid False] r f
    have "zenmux_plan_try P (fetch_chat Wf) styleInput req
            = zenmux_plan_try P (fetch_chat Wr) styleInput req" by simp
    then show ?thesis by (simp add: generateSlidePlan_def)
  next
    case True
    from raw_fails[OF toks True, of P styleInput req] r obtain e1 where
      "zenmux_plan_try P (fetch_chat Wr) styleInput req = Inl e1"
      by (auto simp: isl_def)
    moreover from fenced_fails[OF toks True, of P styleInput req] f obtain e2 where
      "zenmux_plan_try P (fetch_chat Wf) styleInput req = Inl e2"
      by (auto simp: isl_def)
    ultimately show ?thesis by (simp add: generateSlidePlan_def)
  qed
qed

theorem fence_roundtrip_witness:
  "json_decode (number_value sample_engine) sample_plan_text
     = Some (Obj [(ascii ''topic'', Str (ascii ''T'')),
                  (ascii ''slides'', Arr [Obj [(ascii ''id'', Str (ascii ''a''))]] [])]) \<and>
   generateSlidePlan sample_engine (gateway_answers (fenced sample_plan_text)) 1 En None None Zenmux
     = generateSlidePlan sample_engine (gateway_answers sample_plan_text) 1 En None None Zenmux \<and>
   generateSlidePlan sample_engine (gateway_answers sample_plan_text) 1 En None None Zenmux
     = Inr (Obj [(ascii ''topic'', Str (ascii ''T'')),
                 (ascii ''slides'', Arr [Obj [(ascii ''id'', Str (ascii ''a'')),
                                             (ascii ''selectedImageIds'', Arr [] [])]] []),
                 (ascii ''style'', Undefined),
                 (ascii ''requirements'', Undefined)]) \<and>
   json_decode (number_value sample_engine) backtick_plan_text
     = Some (Obj [(ascii ''topic'', Str (ascii ''```'')), (ascii ''slides'', Arr [] [])]) \<and>
   generateSlidePlan sample_engine (gateway_answers (fenced backtick_plan_text)) 1 En None None Zenmux
     = generateSlidePlan sample_engine (gateway_answers backtick_plan_text) 1 En None None Zenmux \<and>
   generateSlidePlan sample_engine (gateway_answers backtick_plan_text) 1 En None None Zenmux
     = createFallbackPlan 1 En None"
proof -
  let ?d = "\<lambda>content. Obj [(ascii ''choices'', Arr [Obj [(ascii ''message'', Obj
           [(ascii ''content'', Str content)])]] [])]"
  have w: "fetch_chat (gateway_answers content) = Inr (Response True (Inr (?d content)))" for content
    by (simp add: gateway_answers_def)
  have c: "choice_content sample_engine (?d content) = Inr (Str content)" for content
    by (simp add: choice_content_def get_prop_def opt_prop_def opt_index0_def)
  have v1: "json_decode (number_value sample_engine) sample_plan_text
     = Some (Obj [(ascii ''topic'', Str (ascii ''T'')),
                  (ascii ''slides'', Arr [Obj [(ascii ''id'', Str (ascii ''a''))]] [])])"
    by code_simp
  have v2: "json_decode (number_value sample_engine) backtick_plan_text
     = Some (Obj [(ascii ''topic'', Str (ascii ''```'')), (ascii ''slides'', Arr [] [])])"
    by code_simp
  have r1: "generateSlidePlan sample_engine (gateway_answers sample_plan_text) 1 En None None Zenmux
     = Inr (Obj [(ascii ''topic'', Str (ascii ''T'')),
                 (ascii ''slides'', Arr [Obj [(ascii ''id'', Str (ascii ''a'')),
                                             (ascii ''selectedImageIds'', Arr [] [])]] []),
                 (ascii ''style'', Undefined),
                 (ascii ''requirements'', Undefined)])"
    by code_simp
  have r2: "generateSlidePlan sample_engine (gateway_answers backtick_plan_text) 1 En None None Zenmux
     = createFallbackPlan 1 En None"
    by code_simp
  from fence_roundtrip[OF v1 w c w c, of 1 En None None]
       fence_roundtrip[OF v2 w c w c, of 1 En None None] v1 v2 r1 r2
  show ?thesis by simp
qed

section \<open>The slide image generator\<close>

lemma google_calls:
  assumes "image_sdk_new W = None" and "primary_try W = Inl e"
  shows "fst (generateFinalSlideImage P W Google) =
           (if fallback_eligible (error_text e)
            then [Generate primary_model, Generate fallback_model]
            else [Generate primary_model])"
  using assms
  by (simp add: generateFinalSlideImage_def split: sum.splits option.splits)

lemma google_not_eligible:
  assumes "image_sdk_new W = None" and "primary_try W = Inl e"
    and "\<not> fallback_eligible (error_text e)"
  shows "snd (generateFinalSlideImage P W Google) = Inl e"
  using assms by (simp add: generateFinalSlideImage_def)

lemma models_differ: "primary_model \<noteq> fallback_model"
  by (simp add: primary_model_def fallback_model_def)

text \<open>
  C3, as the code has it. The secondary model exists on the SDK provider only, and the test
  for it reads the message of the error, or its \<open>toString()\<close> when the message is empty.
  On the SDK provider, after a failure \<open>e\<close> of the primary model: if the message of \<open>e\<close>
  contains \<open>403\<close>, or more generally if the text read contains one of the three markers,
  the requests sent are the primary one and exactly one to the secondary model; if the text
  read contains no marker, in particular if the message is not empty and contains none, the
  primary request is the only one and the call rejects with \<open>e\<close> itself. On the gateway
  provider a failed call has sent its one request, none to the secondary model, and rejects
  with what its attempt threw, whatever the message.
\<close>

theorem secondary_model_call_count:
  "(image_sdk_new W = None \<and> primary_try W = Inl e \<longrightarrow>
      (str_includes (err_message e) (ascii ''403'') \<longrightarrow>
         fst (generateFinalSlideImage P W Google)
           = [Generate primary_model, Generate fallback_model] \<and>
         count_list (fst (generateFinalSlideImage P W Google)) (Generate fallback_model) = 1) \<and>
      (fallback_eligible (error_text e) \<longrightarrow>
         fst (generateFinalSlideImage P W Google)
           = [Generate primary_model, Generate fallback_model] \<and>
         count_list (fst (generateFinalSlideImage P W Google)) (Generate fallback_model) = 1) \<and>
      (\<not> fallback_eligible (error_text e) \<longrightarrow>
         fst (generateFinalSlideImage P W Google) = [Generate primary_model] \<and>
         count_list (fst (generateFinalSlideImage P W Google)) (Generate fallback_model) = 0 \<and>
         snd (generateFinalSlideImage P W Google) = Inl e) \<and>
      (err_message e \<noteq> [] \<and> \<not> fallback_eligible (err_message e) \<longrightarrow>
         fst (generateFinalSlideImage P W Google) = [Generate primary_model] \<and>
         count_list (fst (generateFinalSlideImage P W Google)) (Generate fallback_model) = 0 \<and>
         snd (generateFinalSlideImage P W Google) = Inl e)) \<and>
   (zenmux_image_try P (fetch_image W) = Inl e \<longrightarrow>
      generateFinalSlideImage P W Zenmux = ([Fetch zenmux_image_url], Inl e) \<and>
      count_list (fst (generateFinalSlideImage P W Zenmux)) (Generate fallback_model) = 0)"
proof -
  let ?calls = "fst (generateFinalSlideImage P W Google)"
  have eligible: "?calls = [Generate primary_model, Generate fallback_model] \<and>
      count_list ?calls (Generate fallback_model) = 1"
    if "image_sdk_new W = None" "primary_try W = Inl e" "fallback_eligible (error_text e)"
    using that models_differ by (simp add: google_calls)
  have not_eligible: "?calls = [Generate primary_model] \<and>
      count_list ?calls (Generate fallback_model) = 0 \<and>
      snd (generateFinalSlideImage P W Google) = Inl e"
    if "image_sdk_new W = None" "primary_try W = Inl e" "\<not> fallback_eligible (error_text e)"
    using that models_differ by (simp add: google_calls google_not_eligible)
  have marker: "fallback_eligible (error_text e)" if m: "str_includes (err_message e) (ascii ''403'')"
  proof -
    from m have "err_message e \<noteq> []"
      by (rule includes_nonempty) simp
    with m show ?thesis
      by (simp add: error_text_message fallback_eligible_def del: ascii_Cons)
  qed
  have message: "\<not> fallback_eligible (error_text e)"
    if "err_message e \<noteq> [] \<and> \<not> fallback_eligible (err_message e)"
    using that by (simp add: error_text_message)
  have gateway: "generateFinalSlideImage P W Zenmux = ([Fetch zenmux_image_url], Inl e) \<and>
      count_list (fst (generateFinalSlideImage P W Zenmux)) (Generate fallback_model) = 0"
    if "zenmux_image_try P (fetch_image W) = Inl e"
    using that by (simp add: generateFinalSlideImage_def)
  show ?thesis
    using eligible not_eligible marker message gateway by blast
qed

theorem secondary_model_call_count_witness:
  "primary_try (sdk_rejects (ascii ''403 Forbidden'')) = Inl (new_Error (ascii ''403 Forbidden'')) \<and>
   str_includes (err_message (new_Error (ascii ''403 Forbidden''))) (ascii ''403'') \<and>
   fst (generateFinalSlideImage sample_engine (sdk_rejects (ascii ''403 Forbidden'')) Google)
     = [Generate primary_model, Generate fallback_model] \<and>
   primary_try (sdk_rejects (ascii ''timeout'')) = Inl (new_Error (ascii ''timeout'')) \<and>
   \<not> fallback_eligible (err_message (new_Error (ascii ''timeout''))) \<and>
   fst (generateFinalSlideImage sample_engine (sdk_rejects (ascii ''timeout'')) Google)
     = [Generate primary_model] \<and>
   snd (generateFinalSlideImage sample_engine (sdk_rejects (ascii ''timeout'')) Google)
     = Inl (new_Error (ascii ''timeout'')) \<and>
   primary_try (sdk_throws (ErrorObj (ascii ''NotFound: model not found'') []))
     = Inl (ErrorObj (ascii ''NotFound: model not found'') []) \<and>
   fallback_eligible (error_text (ErrorObj (ascii ''NotFound: model not found'') [])) \<and>
   fst (generateFinalSlideImage sample_engine
          (sdk_throws (ErrorObj (ascii ''NotFound: model not found'') [])) Google)
     = [Generate primary_model, Generate fallback_model] \<and>
   zenmux_image_try sample_engine (fetch_image (gateway_refuses (ascii ''permission denied'')))
     = Inl (new_Error (ascii ''permission denied'')) \<and>
   generateFinalSlideImage sample_engine (gateway_refuses (ascii ''permission denied'')) Zenmux
     = ([Fetch zenmux_image_url], Inl (new_Error (ascii ''permission denied'')))"
proof -
  let ?n = "ErrorObj (ascii ''NotFound: model not found'') []"
  have s: "image_sdk_new (sdk_rejects msg) = None"
    "primary_try (sdk_rejects msg) = Inl (new_Error msg)" for msg
    by (simp_all add: sdk_rejects_def primary_try_def)
  have t: "image_sdk_new (sdk_throws e) = None" "primary_try (sdk_throws e) = Inl e" for e
    by (simp_all add: sdk_throws_def primary_try_def)
  have a: "str_includes (err_message (new_Error (ascii ''403 Forbidden''))) (ascii ''403'')"
    by code_simp
  have b: "err_message (new_Error (ascii ''timeout'')) \<noteq> []"
    "\<not> fallback_eligible (err_message (new_Error (ascii ''timeout'')))"
    by code_simp+
  have c: "fallback_eligible (error_text ?n)"
    by code_simp
  have d: "zenmux_image_try sample_engine (fetch_image (gateway_refuses (ascii ''permission denied'')))
     = Inl (new_Error (ascii ''permission denied''))"
    by code_simp
  from secondary_model_call_count
         [of "sdk_rejects (ascii ''403 Forbidden'')" "new_Error (ascii ''403 Forbidden'')" sample_engine]
       secondary_model_call_count
         [of "sdk_rejects (ascii ''timeout'')" "new_Error (ascii ''timeout'')" sample_engine]
       secondary_model_call_count [of "sdk_throws ?n" ?n sample_engine]
       secondary_model_call_count
         [of "gateway_refuses (ascii ''permission denied'')"
             "new_Error (ascii ''permission denied'')" sample_engine]
       s t a b c d
  show ?thesis by simp
qed

text \<open>
  The claim read for every render and on the message alone fails on the code twice. On the
  gateway provider a refusal with the message \<open>403 Forbidden\<close> is followed by no second
  request. On the SDK provider an error named \<open>Http403\<close> with an empty message has no marker
  in its message, and the secondary model is requested, because the text read is then
  \<open>toString()\<close>, the name.
\<close>

theorem secondary_model_every_render_counterexample:
  "zenmux_image_try sample_engine (fetch_image (gateway_refuses (ascii ''403 Forbidden'')))
     = Inl (new_Error (ascii ''403 Forbidden'')) \<and>
   str_includes (err_message (new_Error (ascii ''403 Forbidden''))) (ascii ''403'') \<and>
   generateFinalSlideImage sample_engine (gateway_refuses (ascii ''403 Forbidden'')) Zenmux
     = ([Fetch zenmux_image_url], Inl (new_Error (ascii ''403 Forbidden''))) \<and>
   image_sdk_new (sdk_throws (ErrorObj (ascii ''Http403'') [])) = None \<and>
   primary_try (sdk_throws (ErrorObj (ascii ''Http403'') [])) = Inl (ErrorObj (ascii ''Http403'') []) \<and>
   \<not> str_includes (err_message (ErrorObj (ascii ''Http403'') [])) (ascii ''permission'') \<and>
   \<not> str_includes (err_message (ErrorObj (ascii ''Http403'') [])) (ascii ''403'') \<and>
   \<not> str_includes (err_message (ErrorObj (ascii ''Http403'') [])) (ascii ''not found'') \<and>
   fst (generateFinalSlideImage sample_engine (sdk_throws (ErrorObj (ascii ''Http403'') [])) Google)
     = [Generate primary_model, Generate fallback_model]"
  by code_simp

text \<open>
  C7, as the code has it. The test for the secondary model is a case-sensitive substring
  match: after a failure \<open>e\<close> of the primary model, the secondary model is requested
  exactly when the text of \<open>e\<close> contains \<open>permission\<close>, \<open>403\<close> or \<open>not found\<close> as written.
\<close>

theorem fallback_test_case_sensitive:
  assumes "image_sdk_new W = None" and "primary_try W = Inl e"
  shows "Generate fallback_model \<in> set (fst (generateFinalSlideImage P W Google)) \<longleftrightarrow>
           str_includes (error_text e) (ascii ''permission'')
           \<or> str_includes (error_text e) (ascii ''403'')
           \<or> str_includes (error_text e) (ascii ''not found'')"
  using models_differ
  by (simp add: google_calls[OF assms] fallback_eligible_def del: ascii_Cons)

theorem fallback_test_case_sensitive_witness:
  "image_sdk_new (sdk_rejects (ascii ''permission denied'')) = None \<and>
   primary_try (sdk_rejects (ascii ''permission denied''))
     = Inl (new_Error (ascii ''permission denied'')) \<and>
   str_includes (error_text (new_Error (ascii ''permission denied''))) (ascii ''permission'') \<and>
   Generate fallback_model
     \<in> set (fst (generateFinalSlideImage sample_engine
                    (sdk_rejects (ascii ''permission denied'')) Google))"
proof -
  have a: "image_sdk_new (sdk_rejects (ascii ''permission denied'')) = None"
    "primary_try (sdk_rejects (ascii ''permission denied''))
       = Inl (new_Error (ascii ''permission denied''))"
    by (simp_all add: sdk_rejects_def primary_try_def)
  have m: "str_includes (error_text (new_Error (ascii ''permission denied''))) (ascii ''permission'')"
    by code_simp
  from fallback_test_case_sensitive[OF a, of sample_engine] m
  show ?thesis using a by simp
qed

text \<open>
  The case-insensitive reading fails on the code: the message \<open>Permission denied\<close> matches
  \<open>permission\<close> when letter case is ignored, and the secondary model is not requested.
\<close>

theorem fallback_test_case_insensitive_counterexample:
  "image_sdk_new (sdk_rejects (ascii ''Permission denied'')) = None \<and>
   primary_try (sdk_rejects (ascii ''Permission denied''))
     = Inl (new_Error (ascii ''Permission denied'')) \<and>
   spec_fallback_eligible (error_text (new_Error (ascii ''Permission denied''))) \<and>
   Generate fallback_model
     \<notin> set (fst (generateFinalSlideImage sample_engine
                    (sdk_rejects (ascii ''Permission denied'')) Google))"
  by code_simp

text \<open>
  C10. On the gateway provider a call sends at most one request and none to an SDK model;
  whatever the attempt throws, a rejected fetch included, is what the call rejects with.
  The SDK provider does have runs with a second request, to the secondary model.
\<close>

theorem gateway_single_request:
  "length (fst (generateFinalSlideImage P W Zenmux)) \<le> 1 \<and>
   (\<forall>m. Generate m \<notin> set (fst (generateFinalSlideImage P W Zenmux))) \<and>
   (\<forall>e. zenmux_image_try P (fetch_image W) = Inl e \<longrightarrow>
        snd (generateFinalSlideImage P W Zenmux) = Inl e) \<and>
   (\<forall>e. fetch_image W = Inl e \<longrightarrow> snd (generateFinalSlideImage P W Zenmux) = Inl e) \<and>
   (\<exists>W'. fst (generateFinalSlideImage P W' Google)
            = [Generate primary_model, Generate fallback_model])"
proof -
  let ?W = "\<lparr>fetch_image = Inl (new_Error []), image_sdk_new = None,
             sdk_generate = (\<lambda>m. Inl (new_Error (ascii ''403'')))\<rparr>"
  have "primary_try ?W = Inl (new_Error (ascii ''403''))"
    by (simp add: primary_try_def)
  moreover have "fallback_eligible (error_text (new_Error (ascii ''403'')))"
    by (simp add: fallback_eligible_def error_text_def new_Error_def)
  ultimately have "fst (generateFinalSlideImage P ?W Google)
            = [Generate primary_model, Generate fallback_model]"
    by (simp add: google_calls)
  then have "\<exists>W'. fst (generateFinalSlideImage P W' Google)
            = [Generate primary_model, Generate fallback_model]" by blast
  then show ?thesis
    by (simp add: generateFinalSlideImage_def zenmux_image_try_def)
qed

theorem gateway_single_request_witness:
  "zenmux_image_try sample_engine (fetch_image gateway_forbidden)
     = Inl (new_Error (ascii ''403 permission denied'')) \<and>
   fallback_eligible (error_text (new_Error (ascii ''403 permission denied''))) \<and>
   fst (generateFinalSlideImage sample_engine gateway_forbidden Zenmux) = [Fetch zenmux_image_url] \<and>
   snd (generateFinalSlideImage sample_engine gateway_forbidden Zenmux)
     = Inl (new_Error (ascii ''403 permission denied''))"
proof -
  have t: "zenmux_image_try sample_engine (fetch_image gateway_forbidden)
     = Inl (new_Error (ascii ''403 permission denied''))"
    by code_simp
  have m: "fallback_eligible (error_text (new_Error (ascii ''403 permission denied'')))"
    by code_simp
  have c: "fst (generateFinalSlideImage sample_engine gateway_forbidden Zenmux) = [Fetch zenmux_image_url]"
    by (simp add: generateFinalSlideImage_def)
  from gateway_single_request[of sample_engine gateway_forbidden] t
  have "snd (generateFinalSlideImage sample_engine gateway_forbidden Zenmux)
     = Inl (new_Error (ascii ''403 permission denied''))" by blast
  with t m c show ?thesis by simp
qed

section \<open>The batch run\<close>

lemma slot_set_slot_same: "slot (set_slot rs i u) i = Some u"
  by (auto simp: slot_def set_slot_def nth_append)

lemma slot_set_slot_other: "j \<noteq> i \<Longrightarrow> slot (set_slot rs i u) j = slot rs j"
  by (auto simp: slot_def set_slot_def nth_append nth_Cons')

lemma rendered_set_slot_other: "j \<noteq> i \<Longrightarrow> rendered (set_slot rs i u) j = rendered rs j"
  by (simp add: rendered_def slot_set_slot_other)

lemma loop_step_rendered:
  "rendered (results r) i \<Longrightarrow>
     generation_loop P W pr (i # rest) r = generation_loop P W pr rest r"
  by simp

lemma loop_step_success:
  assumes "\<not> rendered (results r) i" and "render_outcome P W pr i = Inr url"
  shows "generation_loop P W pr (i # rest) r =
     generation_loop P W pr rest
       \<lparr>state = (state r)\<lparr>progressIndex := i + 1, generatedImages := set_slot (results r) i url\<rparr>,
        results = set_slot (results r) i url,
        attempted = attempted r @ [i], alerted = alerted r\<rparr>"
  using assms by (cases r) (simp add: render_outcome_def Let_def)

lemma loop_step_benign:
  assumes "\<not> rendered (results r) i" and "render_outcome P W pr i = Inl e"
    and "\<not> abort_marker (error_text e)"
  shows "generation_loop P W pr (i # rest) r =
     generation_loop P W pr rest
       \<lparr>state = (state r)\<lparr>progressIndex := i + 1\<rparr>, results = results r,
        attempted = attempted r @ [i], alerted = alerted r\<rparr>"
  using assms by (cases r) (simp add: render_outcome_def Let_def)

lemma loop_step_abort:
  assumes "\<not> rendered (results r) i" and "render_outcome P W pr i = Inl e"
    and "abort_marker (error_text e)"
  shows "generation_loop P W pr (i # rest) r =
       \<lparr>state = (state r)\<lparr>progressIndex := i + 1, isGenerating := False, hasApiKey := False\<rparr>,
        results = results r, attempted = attempted r @ [i], alerted = True\<rparr>"
  using assms by (cases r) (simp add: render_outcome_def Let_def)

declare generation_loop.simps(2) [simp del]

text \<open>Frame: a slot that is rendered, or whose index is not in the list, is not touched.\<close>

lemma loop_frame:
  assumes "rendered (results r) j \<or> j \<notin> set is"
  shows "slot (results (generation_loop P W pr is r)) j = slot (results r) j
       \<and> (j \<in> set (attempted (generation_loop P W pr is r)) \<longrightarrow> j \<in> set (attempted r))"
  using assms
proof (induction "is" arbitrary: r)
  case Nil
  then show ?case by simp
next
  case (Cons i rest)
  show ?case
  proof (cases "rendered (results r) i")
    case True
    with Cons show ?thesis by (auto simp: loop_step_rendered)
  next
    case nr: False
    then have ij: "j \<noteq> i" using Cons.prems by auto
    show ?thesis
    proof (cases "render_outcome P W pr i")
      case (Inr url)
      let ?r = "\<lparr>state = (state r)\<lparr>progressIndex := i + 1,
                    generatedImages := set_slot (results r) i url\<rparr>,
                 results = set_slot (results r) i url,
                 attempted = attempted r @ [i], alerted = alerted r\<rparr>"
      have "rendered (results ?r) j \<or> j \<notin> set rest"
        using Cons.prems ij by (auto simp: rendered_set_slot_other)
      from Cons.IH[OF this] show ?thesis
        using ij by (simp add: loop_step_success[OF nr Inr] slot_set_slot_other)
    next
      case (Inl e)
      show ?thesis
      proof (cases "abort_marker (error_text e)")
        case True
        show ?thesis using ij by (simp add: loop_step_abort[OF nr Inl True])
      next
        case False
        let ?r = "\<lparr>state = (state r)\<lparr>progressIndex := i + 1\<rparr>, results = results r,
                   attempted = attempted r @ [i], alerted = alerted r\<rparr>"
        have "rendered (results ?r) j \<or> j \<notin> set rest"
          using Cons.prems ij by auto
        from Cons.IH[OF this] show ?thesis
          using ij by (simp add: loop_step_benign[OF nr Inl False])
      qed
    qed
  qed
qed

lemma loop_images_sync:
  assumes "generatedImages (state r) = results r"
  shows "generatedImages (state (generation_loop P W pr is r)) = results (generation_loop P W pr is r)"
  using assms
proof (induction "is" arbitrary: r)
  case Nil
  then show ?case by simp
next
  case (Cons i rest)
  show ?case
  proof (cases "rendered (results r) i")
    case True
    with Cons show ?thesis by (simp add: loop_step_rendered)
  next
    case nr: False
    show ?thesis
    proof (cases "render_outcome P W pr i")
      case (Inr url)
      show ?thesis
        by (simp add: loop_step_success[OF nr Inr] Cons.IH)
    next
      case (Inl e)
      show ?thesis
      proof (cases "abort_marker (error_text e)")
        case True
        show ?thesis using Cons.prems by (simp add: loop_step_abort[OF nr Inl True])
      next
        case False
        show ?thesis using Cons.prems by (simp add: loop_step_benign[OF nr Inl False] Cons.IH)
      qed
    qed
  qed
qed

lemma unrendered_cong:
  "(\<And>i. i \<in> set is \<Longrightarrow> rendered rs' i = rendered rs i) \<Longrightarrow> unrendered rs' is = unrendered rs is"
  unfolding unrendered_def by (rule filter_cong) auto

text \<open>Running through a stretch of indices none of which aborts.\<close>

lemma loop_prefix:
  assumes "distinct pre"
    and "\<forall>i \<in> set pre. \<not> rendered (results r) i \<longrightarrow> \<not> aborting P W pr i"
  shows "\<exists>r'. generation_loop P W pr (pre @ post) r = generation_loop P W pr post r' \<and>
           attempted r' = attempted r @ unrendered (results r) pre \<and>
           alerted r' = alerted r \<and>
           hasApiKey (state r') = hasApiKey (state r) \<and>
           (generatedImages (state r) = results r \<longrightarrow> generatedImages (state r') = results r') \<and>
           (\<forall>j. j \<notin> set pre \<longrightarrow> slot (results r') j = slot (results r) j) \<and>
           (\<forall>i \<in> set pre. \<not> rendered (results r) i \<longrightarrow>
              slot_follows (render_outcome P W pr i) (slot (results r') i) (slot (results r) i))"
  using assms
proof (induction pre arbitrary: r)
  case Nil
  show ?case by (rule exI[of _ r]) (simp add: unrendered_def)
next
  case (Cons i pre)
  have d: "distinct pre" and ni: "i \<notin> set pre" using Cons.prems(1) by simp_all
  show ?case
  proof (cases "rendered (results r) i")
    case True
    have "\<forall>j \<in> set pre. \<not> rendered (results r) j \<longrightarrow> \<not> aborting P W pr j"
      using Cons.prems(2) by simp
    from Cons.IH[OF d this] obtain r' where r':
      "generation_loop P W pr (pre @ post) r = generation_loop P W pr post r'"
      "attempted r' = attempted r @ unrendered (results r) pre"
      "alerted r' = alerted r" "hasApiKey (state r') = hasApiKey (state r)"
      "generatedImages (state r) = results r \<longrightarrow> generatedImages (state r') = results r'"
      "\<forall>j. j \<notin> set pre \<longrightarrow> slot (results r') j = slot (results r) j"
      "\<forall>i \<in> set pre. \<not> rendered (results r) i \<longrightarrow>
              slot_follows (render_outcome P W pr i) (slot (results r') i) (slot (results r) i)"
      by blast
    show ?thesis
      by (rule exI[of _ r']) (use True r' in \<open>simp add: loop_step_rendered unrendered_def\<close>)
  next
    case nr: False
    then have na: "\<not> aborting P W pr i" using Cons.prems(2) by simp
    show ?thesis
    proof (cases "render_outcome P W pr i")
      case (Inr url)
      let ?r = "\<lparr>state = (state r)\<lparr>progressIndex := i + 1,
                    generatedImages := set_slot (results r) i url\<rparr>,
                 results = set_slot (results r) i url,
                 attempted = attempted r @ [i], alerted = alerted r\<rparr>"
      have same: "rendered (results ?r) j = rendered (results r) j" if "j \<in> set pre" for j
      proof -
        from that ni have "j \<noteq> i" by auto
        then show ?thesis by (simp add: rendered_set_slot_other)
      qed
      have "\<forall>j \<in> set pre. \<not> rendered (results ?r) j \<longrightarrow> \<not> aborting P W pr j"
        using Cons.prems(2) same by simp
      from Cons.IH[OF d this] obtain r' where r':
        "generation_loop P W pr (pre @ post) ?r = generation_loop P W pr post r'"
        "attempted r' = attempted ?r @ unrendered (results ?r) pre"
        "alerted r' = alerted ?r" "hasApiKey (state r') = hasApiKey (state ?r)"
        "generatedImages (state ?r) = results ?r \<longrightarrow> generatedImages (state r') = results r'"
        "\<forall>j. j \<notin> set pre \<longrightarrow> slot (results r') j = slot (results ?r) j"
        "\<forall>i \<in> set pre. \<not> rendered (results ?r) i \<longrightarrow>
              slot_follows (render_outcome P W pr i) (slot (results r') i) (slot (results ?r) i)"
        by blast
      have u: "unrendered (results ?r) pre = unrendered (results r) pre"
        by (rule unrendered_cong) (rule same)
      have s1: "slot (results r') i = Some url"
        using r'(6) ni by (simp add: slot_set_slot_same)
      have s2: "\<forall>j. j \<notin> set (i # pre) \<longrightarrow> slot (results r') j = slot (results r) j"
        using r'(6) by (simp add: slot_set_slot_other)
      have s3: "\<forall>j \<in> set pre. \<not> rendered (results r) j \<longrightarrow>
              slot_follows (render_outcome P W pr j) (slot (results r') j) (slot (results r) j)"
      proof (intro ballI impI)
        fix j assume j: "j \<in> set pre" "\<not> rendered (results r) j"
        then have "j \<noteq> i" using ni by auto
        then have "slot (set_slot (results r) i url) j = slot (results r) j"
          by (rule slot_set_slot_other)
        moreover from r'(7) j same
        have "slot_follows (render_outcome P W pr j) (slot (results r') j)
                (slot (set_slot (results r) i url) j)" by simp
        ultimately show "slot_follows (render_outcome P W pr j) (slot (results r') j) (slot (results r) j)"
          by simp
      qed
      show ?thesis
        apply (rule exI[of _ r'])
        using r'(1,2,3,4,5) u s1 s2 s3 nr Inr
        by (simp add: loop_step_success[OF nr Inr] unrendered_def slot_follows_def)
    next
      case (Inl e)
      with na have ne: "\<not> abort_marker (error_text e)" by (simp add: aborting_def)
      let ?r = "\<lparr>state = (state r)\<lparr>progressIndex := i + 1\<rparr>, results = results r,
                   attempted = attempted r @ [i], alerted = alerted r\<rparr>"
      have "\<forall>j \<in> set pre. \<not> rendered (results ?r) j \<longrightarrow> \<not> aborting P W pr j"
        using Cons.prems(2) by simp
      from Cons.IH[OF d this] obtain r' where r':
        "generation_loop P W pr (pre @ post) ?r = generation_loop P W pr post r'"
        "attempted r' = attempted ?r @ unrendered (results ?r) pre"
        "alerted r' = alerted ?r" "hasApiKey (state r') = hasApiKey (state ?r)"
        "generatedImages (state ?r) = results ?r \<longrightarrow> generatedImages (state r') = results r'"
        "\<forall>j. j \<notin> set pre \<longrightarrow> slot (results r') j = slot (results ?r) j"
        "\<forall>i \<in> set pre. \<not> rendered (results ?r) i \<longrightarrow>
              slot_follows (render_outcome P W pr i) (slot (results r') i) (slot (results ?r) i)"
        by blast
      have s1: "slot (results r') i = slot (results r) i"
        using r'(6) ni by simp
      have s3: "\<forall>j \<in> set pre. \<not> rendered (results r) j \<longrightarrow>
              slot_follows (render_outcome P W pr j) (slot (results r') j) (slot (results r) j)"
        using r'(7) by simp
      show ?thesis
        apply (rule exI[of _ r'])
        using r'(1,2,3,4,5,6) s1 s3 nr Inl
        by (simp add: loop_step_benign[OF nr Inl ne] unrendered_def slot_follows_def)
    qed
  qed
qed


lemma upt_split_at: "k < n \<Longrightarrow> [0 ..< n] = [0 ..< k] @ k # [Suc k ..< n]"
proof -
  assume "k < n"
  then have "[0 ..< n] = [0 ..< k] @ [k ..< n]"
    by (metis le0 less_imp_le_nat upt_add_eq_append ordered_cancel_comm_monoid_diff_class.add_diff_inverse plus_nat.add_0)
  also have "[k ..< n] = k # [Suc k ..< n]"
    using \<open>k < n\<close> by (rule upt_conv_Cons)
  finally show ?thesis .
qed

text \<open>
  C2. In a run with a key, let slide \<open>k\<close> be not yet rendered and let its call fail with a
  text that contains \<open>permission\<close>, \<open>403\<close>, \<open>The caller does not have permission\<close> or
  \<open>quota\<close>, no earlier call of the run having failed so. Then the calls of the run are
  those for the unrendered slides before \<open>k\<close>, in order, and then the one for \<open>k\<close>; no
  slide after \<open>k\<close> is attempted; the notice is shown, the key is reset and the run is
  over. For three fresh slides and \<open>k = 1\<close> the calls are those for A and B, never C.
\<close>

theorem abort_marker_stops_batch:
  assumes key: "hasApiKey s" and k: "k < length (plan_slides plan)"
    and nr: "\<not> rendered (generatedImages s) k"
    and fail: "render_outcome P W pr k = Inl e"
    and marker: "str_includes (error_text e) (ascii ''permission'')
               \<or> str_includes (error_text e) (ascii ''403'')
               \<or> str_includes (error_text e) (ascii ''The caller does not have permission'')
               \<or> str_includes (error_text e) (ascii ''quota'')"
    and before: "\<forall>i<k. \<not> rendered (generatedImages s) i \<longrightarrow> \<not> aborting P W pr i"
  shows "attempted (startGeneration P W pr plan s)
           = filter (\<lambda>i. \<not> rendered (generatedImages s) i) [0 ..< k] @ [k] \<and>
         (\<forall>j>k. j \<notin> set (attempted (startGeneration P W pr plan s))) \<and>
         alerted (startGeneration P W pr plan s) \<and>
         \<not> hasApiKey (state (startGeneration P W pr plan s)) \<and>
         \<not> isGenerating (state (startGeneration P W pr plan s))"
proof -
  let ?r0 = "\<lparr>state = s\<lparr>isGenerating := True, progressIndex := 0\<rparr>,
              results = generatedImages s, attempted = [], alerted = False\<rparr>"
  let ?n = "length (plan_slides plan)"
  have run: "startGeneration P W pr plan s = generation_loop P W pr ([0 ..< k] @ k # [Suc k ..< ?n]) ?r0"
    using key upt_split_at[OF k] by (simp add: startGeneration_def)
  have "\<forall>i \<in> set [0 ..< k]. \<not> rendered (results ?r0) i \<longrightarrow> \<not> aborting P W pr i"
    using before by simp
  from loop_prefix[OF distinct_upt this, of "k # [Suc k ..< ?n]"] obtain r' where r':
    "generation_loop P W pr ([0 ..< k] @ k # [Suc k ..< ?n]) ?r0
       = generation_loop P W pr (k # [Suc k ..< ?n]) r'"
    "attempted r' = unrendered (generatedImages s) [0 ..< k]"
    "\<forall>j. j \<notin> set [0 ..< k] \<longrightarrow> slot (results r') j = slot (generatedImages s) j"
    by auto
  have "slot (results r') k = slot (generatedImages s) k" using r'(3) by simp
  with nr have nr': "\<not> rendered (results r') k" by (simp add: rendered_def)
  have m: "abort_marker (error_text e)" using marker by (simp add: abort_marker_def del: ascii_Cons)
  have fin: "startGeneration P W pr plan s =
       \<lparr>state = (state r')\<lparr>progressIndex := k + 1, isGenerating := False, hasApiKey := False\<rparr>,
        results = results r', attempted = attempted r' @ [k], alerted = True\<rparr>"
    by (simp only: run r'(1) loop_step_abort[OF nr' fail m])
  have att: "attempted (startGeneration P W pr plan s)
           = filter (\<lambda>i. \<not> rendered (generatedImages s) i) [0 ..< k] @ [k]"
    by (simp add: fin r'(2) unrendered_def)
  moreover have "\<forall>j>k. j \<notin> set (attempted (startGeneration P W pr plan s))"
    unfolding att by auto
  ultimately show ?thesis by (simp add: fin)
qed

theorem abort_marker_stops_batch_witness:
  "hasApiKey fresh_state \<and> 1 < length (plan_slides three_slides) \<and>
   \<not> rendered (generatedImages fresh_state) 1 \<and>
   render_outcome sample_engine (second_fails (ascii ''quota exceeded'')) Google 1
     = Inl (new_Error (ascii ''quota exceeded'')) \<and>
   str_includes (error_text (new_Error (ascii ''quota exceeded''))) (ascii ''quota'') \<and>
   \<not> aborting sample_engine (second_fails (ascii ''quota exceeded'')) Google 0 \<and>
   attempted (startGeneration sample_engine (second_fails (ascii ''quota exceeded'')) Google
                three_slides fresh_state) = [0, 1] \<and>
   2 \<notin> set (attempted (startGeneration sample_engine (second_fails (ascii ''quota exceeded''))
                Google three_slides fresh_state))"
proof -
  let ?W = "second_fails (ascii ''quota exceeded'')"
  let ?e = "new_Error (ascii ''quota exceeded'')"
  have key: "hasApiKey fresh_state" by (simp add: fresh_state_def)
  have k: "1 < length (plan_slides three_slides)" by (simp add: three_slides_def)
  have nr: "\<not> rendered (generatedImages fresh_state) 1" by code_simp
  have fail: "render_outcome sample_engine ?W Google 1 = Inl ?e" by code_simp
  have q: "str_includes (error_text ?e) (ascii ''quota'')" by code_simp
  then have marker: "str_includes (error_text ?e) (ascii ''permission'')
               \<or> str_includes (error_text ?e) (ascii ''403'')
               \<or> str_includes (error_text ?e) (ascii ''The caller does not have permission'')
               \<or> str_includes (error_text ?e) (ascii ''quota'')" by blast
  have a0: "\<not> aborting sample_engine ?W Google 0" by code_simp
  then have before: "\<forall>i<1. \<not> rendered (generatedImages fresh_state) i \<longrightarrow>
                        \<not> aborting sample_engine ?W Google i" by simp
  have r0: "\<not> rendered (generatedImages fresh_state) 0" by code_simp
  from abort_marker_stops_batch[OF key k nr fail marker before]
  have "attempted (startGeneration sample_engine ?W Google three_slides fresh_state)
          = filter (\<lambda>i. \<not> rendered (generatedImages fresh_state) i) [0 ..< 1] @ [1]"
    and "\<forall>j>1. j \<notin> set (attempted (startGeneration sample_engine ?W Google three_slides fresh_state))"
    by blast+
  with r0 have "attempted (startGeneration sample_engine ?W Google three_slides fresh_state) = [0, 1]"
    and "2 \<notin> set (attempted (startGeneration sample_engine ?W Google three_slides fresh_state))"
    by simp_all
  with key k nr fail q a0 show ?thesis by blast
qed

text \<open>
  C4. In a run with a key in which no call before the last slide fails with a marker of
  the abort, every slide that is not yet rendered is attempted, in order; the slot of a
  slide whose call succeeds holds its image, and the slot of a slide whose call fails
  stays as it was (absent). For three fresh slides with a benign failure of B the calls
  are those for A, B and C.
\<close>

theorem benign_failure_continues_batch:
  assumes key: "hasApiKey s"
    and benign: "\<forall>i. Suc i < length (plan_slides plan) \<longrightarrow>
                   \<not> rendered (generatedImages s) i \<longrightarrow> \<not> aborting P W pr i"
  shows "attempted (startGeneration P W pr plan s)
           = filter (\<lambda>i. \<not> rendered (generatedImages s) i) [0 ..< length (plan_slides plan)] \<and>
         (\<forall>i < length (plan_slides plan). \<not> rendered (generatedImages s) i \<longrightarrow>
            (\<forall>url. render_outcome P W pr i = Inr url \<longrightarrow>
               slot (generatedImages (state (startGeneration P W pr plan s))) i = Some url) \<and>
            (\<forall>e. render_outcome P W pr i = Inl e \<longrightarrow>
               slot (generatedImages (state (startGeneration P W pr plan s))) i
                 = slot (generatedImages s) i))"
proof (cases "length (plan_slides plan)")
  case 0
  then show ?thesis using key by (simp add: startGeneration_def)
next
  case (Suc m)
  let ?r0 = "\<lparr>state = s\<lparr>isGenerating := True, progressIndex := 0\<rparr>,
              results = generatedImages s, attempted = [], alerted = False\<rparr>"
  have run: "startGeneration P W pr plan s = generation_loop P W pr ([0 ..< m] @ [m]) ?r0"
    using key Suc by (simp add: startGeneration_def)
  have "\<forall>i \<in> set [0 ..< m]. \<not> rendered (results ?r0) i \<longrightarrow> \<not> aborting P W pr i"
    using benign Suc by simp
  from loop_prefix[OF distinct_upt this, of "[m]"] obtain r' where r':
    "generation_loop P W pr ([0 ..< m] @ [m]) ?r0 = generation_loop P W pr [m] r'"
    "attempted r' = unrendered (generatedImages s) [0 ..< m]"
    "generatedImages (state r') = results r'"
    "\<forall>j. j \<notin> set [0 ..< m] \<longrightarrow> slot (results r') j = slot (generatedImages s) j"
    "\<forall>i \<in> set [0 ..< m]. \<not> rendered (generatedImages s) i \<longrightarrow>
        slot_follows (render_outcome P W pr i) (slot (results r') i) (slot (generatedImages s) i)"
    by auto
  have sm: "slot (results r') m = slot (generatedImages s) m" using r'(4) by simp
  then have rm: "rendered (results r') m = rendered (generatedImages s) m"
    by (simp add: rendered_def)
  let ?f = "generation_loop P W pr [m] r'"
  have last: "attempted ?f = attempted r' @ (if rendered (generatedImages s) m then [] else [m]) \<and>
     generatedImages (state ?f) = results ?f \<and>
     (\<forall>j. j \<noteq> m \<longrightarrow> slot (results ?f) j = slot (results r') j) \<and>
     (\<not> rendered (generatedImages s) m \<longrightarrow>
        slot_follows (render_outcome P W pr m) (slot (results ?f) m) (slot (generatedImages s) m))"
  proof (cases "rendered (results r') m")
    case True
    then show ?thesis using rm r'(3) by (simp add: loop_step_rendered)
  next
    case nr: False
    show ?thesis
    proof (cases "render_outcome P W pr m")
      case (Inr url)
      show ?thesis using nr rm r'(3)
        by (simp add: loop_step_success[OF nr Inr] Inr slot_set_slot_same slot_set_slot_other
              slot_follows_def)
    next
      case (Inl e)
      show ?thesis
      proof (cases "abort_marker (error_text e)")
        case True
        show ?thesis using nr rm r'(3) sm
          by (simp add: loop_step_abort[OF nr Inl True] Inl slot_follows_def)
      next
        case False
        show ?thesis using nr rm r'(3) sm
          by (simp add: loop_step_benign[OF nr Inl False] Inl slot_follows_def)
      qed
    qed
  qed
  have att: "attempted (startGeneration P W pr plan s)
           = filter (\<lambda>i. \<not> rendered (generatedImages s) i) [0 ..< length (plan_slides plan)]"
    using last r'(2) by (simp add: run r'(1) Suc unrendered_def)
  have slots: "slot_follows (render_outcome P W pr i)
                 (slot (generatedImages (state (startGeneration P W pr plan s))) i)
                 (slot (generatedImages s) i)"
    if i: "i < length (plan_slides plan)" "\<not> rendered (generatedImages s) i" for i
  proof (cases "i = m")
    case True
    with last i(2) show ?thesis by (simp add: run r'(1))
  next
    case False
    with i Suc have "i \<in> set [0 ..< m]" by simp
    with r'(5) i(2) have "slot_follows (render_outcome P W pr i) (slot (results r') i)
                            (slot (generatedImages s) i)" by blast
    with last False show ?thesis by (simp add: run r'(1))
  qed
  show ?thesis
  proof (intro conjI allI impI)
    show "attempted (startGeneration P W pr plan s)
           = filter (\<lambda>i. \<not> rendered (generatedImages s) i) [0 ..< length (plan_slides plan)]"
      by (rule att)
  next
    fix i url
    assume "i < length (plan_slides plan)" "\<not> rendered (generatedImages s) i"
      "render_outcome P W pr i = Inr url"
    with slots[of i]
    show "slot (generatedImages (state (startGeneration P W pr plan s))) i = Some url"
      by (simp add: slot_follows_def)
  next
    fix i e
    assume "i < length (plan_slides plan)" "\<not> rendered (generatedImages s) i"
      "render_outcome P W pr i = Inl e"
    with slots[of i]
    show "slot (generatedImages (state (startGeneration P W pr plan s))) i
                 = slot (generatedImages s) i"
      by (simp add: slot_follows_def)
  qed
qed

theorem benign_failure_continues_batch_witness:
  "hasApiKey fresh_state \<and>
   render_outcome sample_engine (second_fails (ascii ''network error'')) Google 1
     = Inl (new_Error (ascii ''network error'')) \<and>
   \<not> abort_marker (error_text (new_Error (ascii ''network error''))) \<and>
   attempted (startGeneration sample_engine (second_fails (ascii ''network error'')) Google
                three_slides fresh_state) = [0, 1, 2] \<and>
   map (slot (generatedImages (state (startGeneration sample_engine
          (second_fails (ascii ''network error'')) Google three_slides fresh_state)))) [0, 1, 2]
     = [Some (data_uri (ascii ''AAAA'')), None, Some (data_uri (ascii ''AAAA''))]"
proof -
  let ?W = "second_fails (ascii ''network error'')"
  let ?e = "new_Error (ascii ''network error'')"
  let ?run = "startGeneration sample_engine ?W Google three_slides fresh_state"
  have key: "hasApiKey fresh_state" by (simp add: fresh_state_def)
  have len: "length (plan_slides three_slides) = 3" by (simp add: three_slides_def)
  have o0: "render_outcome sample_engine ?W Google 0 = Inr (data_uri (ascii ''AAAA''))" by code_simp
  have o1: "render_outcome sample_engine ?W Google 1 = Inl ?e" by code_simp
  have o2: "render_outcome sample_engine ?W Google 2 = Inr (data_uri (ascii ''AAAA''))" by code_simp
  have m: "\<not> abort_marker (error_text ?e)" by code_simp
  have nr: "\<not> rendered (generatedImages fresh_state) i" for i
    by (simp add: rendered_def slot_def fresh_state_def nth_Cons')
  have s1: "slot (generatedImages fresh_state) 1 = None"
    by (simp add: slot_def fresh_state_def)
  have benign: "\<forall>i. Suc i < length (plan_slides three_slides) \<longrightarrow>
                   \<not> rendered (generatedImages fresh_state) i \<longrightarrow>
                   \<not> aborting sample_engine ?W Google i"
  proof (intro allI impI)
    fix i assume "Suc i < length (plan_slides three_slides)"
    with len have "i = 0 \<or> i = 1" by auto
    then show "\<not> aborting sample_engine ?W Google i"
      using o0 o1 m by (auto simp: aborting_def)
  qed
  from benign_failure_continues_batch[OF key benign]
  have att: "attempted ?run = filter (\<lambda>i. \<not> rendered (generatedImages fresh_state) i) [0 ..< 3]"
    and slots: "\<forall>i < 3. \<not> rendered (generatedImages fresh_state) i \<longrightarrow>
            (\<forall>url. render_outcome sample_engine ?W Google i = Inr url \<longrightarrow>
               slot (generatedImages (state ?run)) i = Some url) \<and>
            (\<forall>e. render_outcome sample_engine ?W Google i = Inl e \<longrightarrow>
               slot (generatedImages (state ?run)) i = slot (generatedImages fresh_state) i)"
    unfolding len by blast+
  have "[0 ..< 3] = [0, 1, 2::nat]" by (simp add: upt_rec)
  with att nr have a: "attempted ?run = [0, 1, 2]" by simp
  from slots nr o0 have b0: "slot (generatedImages (state ?run)) 0 = Some (data_uri (ascii ''AAAA''))"
    by simp
  from slots nr o1 s1 have b1: "slot (generatedImages (state ?run)) 1 = None"
    by simp
  from slots nr o2 have b2: "slot (generatedImages (state ?run)) 2 = Some (data_uri (ascii ''AAAA''))"
    by simp
  from key o1 m a b0 b1 b2 show ?thesis by simp
qed

text \<open>
  C8. A slide whose slot holds an image when a run starts is skipped: the slide image
  generator is not invoked for it, and its slot is the same after the run.
\<close>

theorem rendered_slides_skipped:
  assumes "rendered (generatedImages s) i"
  shows "i \<notin> set (attempted (startGeneration P W pr plan s)) \<and>
         slot (generatedImages (state (startGeneration P W pr plan s))) i = slot (generatedImages s) i"
proof (cases "hasApiKey s")
  case False
  then show ?thesis by (simp add: startGeneration_def)
next
  case True
  let ?r0 = "\<lparr>state = s\<lparr>isGenerating := True, progressIndex := 0\<rparr>,
              results = generatedImages s, attempted = [], alerted = False\<rparr>"
  let ?is = "[0 ..< length (plan_slides plan)]"
  have run: "startGeneration P W pr plan s = generation_loop P W pr ?is ?r0"
    using True by (simp add: startGeneration_def)
  have "rendered (results ?r0) i \<or> i \<notin> set ?is" using assms by simp
  from loop_frame[OF this, of P W pr]
  have "slot (results (generation_loop P W pr ?is ?r0)) i = slot (generatedImages s) i"
    and "i \<notin> set (attempted (generation_loop P W pr ?is ?r0))"
    by simp_all
  moreover have "generatedImages (state (generation_loop P W pr ?is ?r0))
      = results (generation_loop P W pr ?is ?r0)"
    by (rule loop_images_sync) simp
  ultimately show ?thesis by (simp add: run)
qed

theorem rendered_slides_skipped_witness:
  "rendered (generatedImages resumed_state) 0 \<and>
   0 \<notin> set (attempted (startGeneration sample_engine (\<lambda>i. sdk_succeeds) Google three_slides
                          resumed_state)) \<and>
   slot (generatedImages (state (startGeneration sample_engine (\<lambda>i. sdk_succeeds) Google
           three_slides resumed_state))) 0 = Some (data_uri (ascii ''BBBB''))"
proof -
  have r: "rendered (generatedImages resumed_state) 0" by code_simp
  have s: "slot (generatedImages resumed_state) 0 = Some (data_uri (ascii ''BBBB''))"
    by (simp add: slot_def resumed_state_def)
  from rendered_slides_skipped[OF r, of sample_engine "\<lambda>i. sdk_succeeds" Google three_slides] r s
  show ?thesis by simp
qed

end
